theory Spec2Isabelle
  imports Complex_Main
begin


section \<open>Memory panel: data model of \<open>client/memory/actions/snapshot.js\<close>\<close>

text \<open>
  The action creators of \<open>snapshot.js\<close> are generator tasks run against a store
  (\<open>dispatch\<close>, \<open>getState\<close>) and two RPC objects (the \<open>MemoryFront\<close> and the
  \<open>HeapAnalysesClient\<close>). The values that travel through them (paths, creation times,
  census reports, breakdowns, errors) are opaque to this code: it only passes them on.
\<close>

type_synonym snapshotId = nat
type_synonym jsval = string
type_synonym jserror = string
type_synonym breakdown = string
type_synonym census = string

text \<open>
  \<open>snapshotState\<close> of \<open>../constants\<close>: the four states \<open>snapshot.js\<close> names, and
  \<open>OtherState\<close> for every state of the enumeration that this file never mentions.
\<close>

datatype snapshotState = SAVED | IMPORTING | READ | SAVED_CENSUS | OtherState nat

text \<open>
  A snapshot record: the fields that \<open>snapshot.js\<close> reads (\<open>id\<close>, \<open>state\<close>, \<open>path\<close>,
  \<open>census\<close>, \<open>selected\<close>) and the two more that the specification lists with them
  (\<open>creationTime\<close>, \<open>report\<close>). A field that is not set is \<open>None\<close>.
\<close>

record snapshot =
  id' :: snapshotId
  state :: snapshotState
  path :: "jsval option"
  creationTime :: "jsval option"
  report :: "jsval option"
  census :: "census option"
  selected :: bool

text \<open>What \<open>getState()\<close> returns, with the fields that \<open>snapshot.js\<close> reads.\<close>

record appState =
  diffing :: bool
  inverted :: bool
  breakdown :: breakdown
  filter' :: "string option"
  snapshots :: "snapshot list"

text \<open>
  The options object handed to \<open>heapWorker.takeCensus\<close>. Of \<open>asInvertedTreeNode\<close>
  and \<open>asTreeNode\<close> the source sets one to \<open>true\<close> and leaves the other out: the
  one left out is \<open>False\<close> here.
\<close>

record censusOpts =
  asInvertedTreeNode :: bool
  asTreeNode :: bool
  opts_filter :: "string option"

text \<open>
  The plain actions dispatched by this file. \<open>TOGGLE_DIFFING\<close> is what
  \<open>toggleDiffing()\<close> of \<open>./diffing\<close> creates; \<open>OtherAction\<close> stands for the actions
  of the rest of the panel, which other parties dispatch while a task is suspended.
\<close>

datatype action =
    TOGGLE_DIFFING
  | TAKE_SNAPSHOT_START snapshot
  | TAKE_SNAPSHOT_END snapshotId jsval
  | SELECT_SNAPSHOT snapshotId
  | SNAPSHOT_ERROR snapshotId jserror
  | READ_SNAPSHOT_START snapshotId
  | READ_SNAPSHOT_END snapshotId jsval
  | TAKE_CENSUS_START snapshotId bool "string option" breakdown
  | TAKE_CENSUS_END snapshotId breakdown bool "string option" jsval
  | OtherAction nat

text \<open>The remote calls: one on the front, three on the heap worker.\<close>

datatype call =
    SaveHeapSnapshot
  | ReadHeapSnapshot "jsval option"
  | GetCreationTime "jsval option"
  | TakeCensus "jsval option" breakdown censusOpts

text \<open>The tasks that are themselves handed to \<open>dispatch\<close>.\<close>

datatype task =
    TakeSnapshot
  | ReadSnapshot snapshotId
  | TakeCensusOf snapshotId
  | RefreshSelectedCensus

text \<open>
  Everything a run does or undergoes, in order: the plain actions and tasks it
  dispatches, the remote calls it issues, how each call settles (\<open>Inl\<close> a rejection,
  \<open>Inr\<close> the resolved value), the exceptions it reports, and the actions other parties
  dispatch while the run is suspended at a call.
\<close>

datatype event =
    Dispatched action
  | DispatchedTask task
  | Called call
  | Settled "jserror + jsval"
  | Reported string jserror
  | External action

text \<open>
  How one remote call goes: the actions dispatched by others before it settles, and
  its result.
\<close>

record response =
  during :: "action list"
  result :: "jserror + jsval"

text \<open>
  The parts of the panel that \<open>snapshot.js\<close> imports and that are defined elsewhere
  are parameters of the model: the store's reducer, the record that
  \<open>createSnapshot()\<close> returns in this run, \<open>censusIsUpToDate\<close> and \<open>breakdownEquals\<close>
  of \<open>../utils\<close>, and \<open>assertions\<close>: whether \<open>assert\<close> of \<open>DevToolsUtils\<close> checks
  its condition. Where it does, on a false condition it makes the error
  \<open>"Assertion failure: " + message\<close>, calls
  \<open>reportException("DevToolsUtils.assert", error)\<close> and throws the error; where it
  does not, the task goes on past the assertion.
\<close>

record env =
  reducer :: "action \<Rightarrow> appState \<Rightarrow> appState"
  createSnapshot :: snapshot
  censusIsUpToDate :: "bool \<Rightarrow> string option \<Rightarrow> breakdown \<Rightarrow> census option \<Rightarrow> bool"
  breakdownEquals :: "breakdown \<Rightarrow> breakdown \<Rightarrow> bool"
  assertions :: bool

text \<open>
  The world a task runs in: the store, the trace so far, and the script of the
  responses still to come. A call issued when the script is empty never settles.
\<close>

record world =
  store :: appState
  trace :: "event list"
  script :: "response list"

text \<open>
  How a task ends: it returns, it throws, or it stays suspended for ever at a call
  that never settles.
\<close>

datatype 'a outcome = Returned 'a | Threw jserror | Suspended

subsection \<open>The primitives\<close>

definition dispatch :: "env \<Rightarrow> action \<Rightarrow> world \<Rightarrow> world" where
  "dispatch e a w =
     w\<lparr>store := reducer e a (store w), trace := trace w @ [Dispatched a]\<rparr>"

definition dispatchTask :: "task \<Rightarrow> world \<Rightarrow> world" where
  "dispatchTask t w = w\<lparr>trace := trace w @ [DispatchedTask t]\<rparr>"

definition reportException :: "string \<Rightarrow> jserror \<Rightarrow> world \<Rightarrow> world" where
  "reportException who error w = w\<lparr>trace := trace w @ [Reported who error]\<rparr>"

definition applyAll :: "env \<Rightarrow> action list \<Rightarrow> appState \<Rightarrow> appState" where
  "applyAll e as s = foldl (\<lambda>s a. reducer e a s) s as"

text \<open>
  \<open>yield call\<close>: the call is issued; while the task is suspended the others' actions
  go through the reducer; then the call settles. \<open>None\<close>: it never settles.
\<close>

definition remote :: "env \<Rightarrow> call \<Rightarrow> world \<Rightarrow> (jserror + jsval) option \<times> world" where
  "remote e c w =
     (case script w of
        [] \<Rightarrow> (None, w\<lparr>trace := trace w @ [Called c]\<rparr>)
      | r # rs \<Rightarrow>
          (Some (result r),
           w\<lparr>store := applyAll e (during r) (store w),
             trace := trace w @ [Called c] @ map External (during r) @ [Settled (result r)],
             script := rs\<rparr>))"

text \<open>
  \<open>getSnapshot(state, id)\<close> of \<open>../utils\<close>: the snapshot of the state with that id,
  \<open>None\<close> when there is none. It asserts that it has found one, so with the
  assertions on the task ends as after any failed assertion (\<open>failedAssertion\<close>);
  with the assertions off the caller reads a field of \<open>undefined\<close>, which throws
  (\<open>noSnapshot\<close>). The messages of the assertions are written without the id or the
  state that the source appends to them.
\<close>

definition getSnapshot :: "appState \<Rightarrow> snapshotId \<Rightarrow> snapshot option" where
  "getSnapshot s i = find (\<lambda>x. id' x = i) (snapshots s)"

definition failedAssertion :: "string \<Rightarrow> world \<Rightarrow> 'a outcome \<times> world" where
  "failedAssertion message w =
     (Threw (''Assertion failure: '' @ message),
      reportException ''DevToolsUtils.assert'' (''Assertion failure: '' @ message) w)"

definition noSnapshot :: "env \<Rightarrow> world \<Rightarrow> 'a outcome \<times> world" where
  "noSnapshot e w =
     (if assertions e then failedAssertion ''No matching snapshot found'' w
      else (Threw ''TypeError: snapshot is undefined'', w))"

definition selectSnapshot :: "snapshotId \<Rightarrow> action" where
  "selectSnapshot i = SELECT_SNAPSHOT i"

definition toggleDiffing :: action where
  "toggleDiffing = TOGGLE_DIFFING"

subsection \<open>\<open>takeSnapshot\<close>\<close>

definition takeSnapshot :: "env \<Rightarrow> world \<Rightarrow> snapshotId option outcome \<times> world" where
  "takeSnapshot e w0 =
     (let w1 = (if diffing (store w0) then dispatch e toggleDiffing w0 else w0);
          snapshot = createSnapshot e;
          i = id' snapshot;
          w2 = dispatch e (TAKE_SNAPSHOT_START snapshot) w1;
          w3 = dispatch e (selectSnapshot i) w2
      in case remote e SaveHeapSnapshot w3 of
           (None, w4) \<Rightarrow> (Suspended, w4)
         | (Some (Inl error), w4) \<Rightarrow>
             (Returned None,
              dispatch e (SNAPSHOT_ERROR i error) (reportException ''takeSnapshot'' error w4))
         | (Some (Inr path'), w4) \<Rightarrow>
             (Returned (Some (id' snapshot)), dispatch e (TAKE_SNAPSHOT_END i path') w4))"

subsection \<open>\<open>readSnapshot\<close>\<close>

definition readSnapshot :: "env \<Rightarrow> snapshotId \<Rightarrow> world \<Rightarrow> unit outcome \<times> world" where
  "readSnapshot e i w0 =
     (case getSnapshot (store w0) i of
        None \<Rightarrow> noSnapshot e w0
      | Some snapshot \<Rightarrow>
          if assertions e \<and> state snapshot \<notin> set [SAVED, IMPORTING]
          then failedAssertion ''Should only read a snapshot once'' w0
          else
            let w1 = dispatch e (READ_SNAPSHOT_START i) w0 in
            (case remote e (ReadHeapSnapshot (path snapshot)) w1 of
              (None, w2) \<Rightarrow> (Suspended, w2)
            | (Some (Inl error), w2) \<Rightarrow>
                (Returned (),
                 dispatch e (SNAPSHOT_ERROR i error) (reportException ''readSnapshot'' error w2))
            | (Some (Inr _), w2) \<Rightarrow>
                (case remote e (GetCreationTime (path snapshot)) w2 of
                   (None, w3) \<Rightarrow> (Suspended, w3)
                 | (Some (Inl error), w3) \<Rightarrow>
                     (Returned (),
                      dispatch e (SNAPSHOT_ERROR i error)
                        (reportException ''readSnapshot'' error w3))
                 | (Some (Inr creationTime'), w3) \<Rightarrow>
                     (Returned (), dispatch e (READ_SNAPSHOT_END i creationTime') w3))))"

subsection \<open>\<open>takeCensus\<close>\<close>

text \<open>\<open>opts\<close> of the loop body: \<open>filter || null\<close> turns the empty string into \<open>null\<close>.\<close>

definition censusOptions :: "bool \<Rightarrow> string option \<Rightarrow> censusOpts" where
  "censusOptions inverted_used filter_used =
     \<lparr>asInvertedTreeNode = inverted_used, asTreeNode = \<not> inverted_used,
      opts_filter = (if filter_used = Some [] then None else filter_used)\<rparr>"

text \<open>
  The \<open>do ... while\<close> loop. Every turn awaits one remote call, so the script gets
  shorter from turn to turn.
\<close>

function censusLoop :: "env \<Rightarrow> snapshotId \<Rightarrow> snapshot \<Rightarrow> world \<Rightarrow> unit outcome \<times> world" where
  "censusLoop e i snapshot w0 =
     (let inverted_used = inverted (store w0);
          breakdown_used = breakdown (store w0);
          filter_used = filter' (store w0);
          w1 = dispatch e (TAKE_CENSUS_START i inverted_used filter_used breakdown_used) w0;
          opts = censusOptions inverted_used filter_used
      in case remote e (TakeCensus (path snapshot) breakdown_used opts) w1 of
           (None, w2) \<Rightarrow> (Suspended, w2)
         | (Some (Inl error), w2) \<Rightarrow>
             (Returned (),
              dispatch e (SNAPSHOT_ERROR i error) (reportException ''takeCensus'' error w2))
         | (Some (Inr report'), w2) \<Rightarrow>
             if inverted_used \<noteq> inverted (store w2) \<or>
                filter_used \<noteq> filter' (store w2) \<or>
                \<not> breakdownEquals e breakdown_used (breakdown (store w2))
             then censusLoop e i snapshot w2
             else (Returned (),
                   dispatch e
                     (TAKE_CENSUS_END i breakdown_used inverted_used filter_used report') w2))"
  by pat_completeness auto
termination
  by (relation "measure (\<lambda>(e, i, snapshot, w). length (script w))")
     (auto simp: remote_def dispatch_def split: list.splits)

declare censusLoop.simps [simp del]

definition takeCensus :: "env \<Rightarrow> snapshotId \<Rightarrow> world \<Rightarrow> unit outcome \<times> world" where
  "takeCensus e i w0 =
     (case getSnapshot (store w0) i of
        None \<Rightarrow> noSnapshot e w0
      | Some snapshot \<Rightarrow>
          if assertions e \<and> state snapshot \<notin> set [READ, SAVED_CENSUS]
          then failedAssertion
                 ''Can only take census of snapshots in READ or SAVED_CENSUS state'' w0
          else if censusIsUpToDate e (inverted (store w0)) (filter' (store w0))
                    (breakdown (store w0)) (census snapshot)
          then (Returned (), w0)
          else censusLoop e i snapshot w0)"

subsection \<open>The tasks that dispatch tasks\<close>

definition takeSnapshotAndCensus :: "env \<Rightarrow> world \<Rightarrow> unit outcome \<times> world" where
  "takeSnapshotAndCensus e w0 =
     (case takeSnapshot e (dispatchTask TakeSnapshot w0) of
        (Suspended, w1) \<Rightarrow> (Suspended, w1)
      | (Threw x, w1) \<Rightarrow> (Threw x, w1)
      | (Returned None, w1) \<Rightarrow> (Returned (), w1)
      | (Returned (Some i), w1) \<Rightarrow>
          (case readSnapshot e i (dispatchTask (ReadSnapshot i) w1) of
             (Suspended, w2) \<Rightarrow> (Suspended, w2)
           | (Threw x, w2) \<Rightarrow> (Threw x, w2)
           | (Returned _, w2) \<Rightarrow>
               (case getSnapshot (store w2) i of
                  None \<Rightarrow> noSnapshot e w2
                | Some s \<Rightarrow>
                    if state s = READ
                    then takeCensus e i (dispatchTask (TakeCensusOf i) w2)
                    else (Returned (), w2))))"

definition refreshSelectedCensus :: "env \<Rightarrow> world \<Rightarrow> unit outcome \<times> world" where
  "refreshSelectedCensus e w0 =
     (case find selected (snapshots (store w0)) of
        None \<Rightarrow> (Returned (), w0)
      | Some snapshot \<Rightarrow>
          if state snapshot = SAVED_CENSUS
          then takeCensus e (id' snapshot) (dispatchTask (TakeCensusOf (id' snapshot)) w0)
          else (Returned (), w0))"

definition selectSnapshotAndRefresh :: "env \<Rightarrow> snapshotId \<Rightarrow> world \<Rightarrow> unit outcome \<times> world" where
  "selectSnapshotAndRefresh e i w0 =
     (let w1 = (if diffing (store w0) then dispatch e toggleDiffing w0 else w0);
          w2 = dispatch e (selectSnapshot i) w1
      in refreshSelectedCensus e (dispatchTask RefreshSelectedCensus w2))"

subsection \<open>Reading a trace\<close>

text \<open>What a run added to the trace.\<close>

definition emitted :: "world \<Rightarrow> world \<Rightarrow> event list" where
  "emitted w w' = drop (length (trace w)) (trace w')"

text \<open>The actions that went through the reducer, whoever dispatched them.\<close>

fun actionsOf :: "event list \<Rightarrow> action list" where
  "actionsOf [] = []"
| "actionsOf (Dispatched a # evs) = a # actionsOf evs"
| "actionsOf (External a # evs) = a # actionsOf evs"
| "actionsOf (_ # evs) = actionsOf evs"

text \<open>The tasks that were handed to \<open>dispatch\<close>.\<close>

fun tasksOf :: "event list \<Rightarrow> task list" where
  "tasksOf [] = []"
| "tasksOf (DispatchedTask t # evs) = t # tasksOf evs"
| "tasksOf (_ # evs) = tasksOf evs"

text \<open>
  The events of a turn of the census loop that is followed by another turn: the
  start of the census, the call, what others dispatch meanwhile, and a resolution.
\<close>

fun quietEvent :: "event \<Rightarrow> bool" where
  "quietEvent (Dispatched (TAKE_CENSUS_START _ _ _ _)) = True"
| "quietEvent (Called _) = True"
| "quietEvent (External _) = True"
| "quietEvent (Settled (Inr _)) = True"
| "quietEvent _ = False"

text \<open>
  The effects a task has on its own account (the settling of a call and the actions
  of others are not its effects) that are a call on an RPC object or a dispatch.
\<close>

fun rpcOrDispatch :: "event \<Rightarrow> bool" where
  "rpcOrDispatch (Reported _ _) = False"
| "rpcOrDispatch _ = True"

text \<open>The start action and the call of the turn of the census loop that begins in \<open>w\<close>.\<close>

definition censusStart :: "snapshotId \<Rightarrow> world \<Rightarrow> action" where
  "censusStart i w =
     TAKE_CENSUS_START i (inverted (store w)) (filter' (store w)) (breakdown (store w))"

definition censusCall :: "snapshot \<Rightarrow> world \<Rightarrow> call" where
  "censusCall snapshot w =
     TakeCensus (path snapshot) (breakdown (store w))
       (censusOptions (inverted (store w)) (filter' (store w)))"

section \<open>Animation inspector: the \<open>AnimationsController\<close>\<close>

text \<open>
  An \<open>AnimationPlayerFront\<close> is an object with an identity; the list holds references.
  A front is modelled by its identity, and what the getter reads from its \<open>state\<close> is
  looked up in a table of the fronts' states.
\<close>

type_synonym player = nat
type_synonym node = nat

text \<open>
  What \<open>this.nodeFront\<close> and \<open>selection.nodeFront\<close> hold: a node front, \<open>null\<close>, or
  \<open>undefined\<close> (the controller's field before it is first set). \<open>===\<close> tells the
  three apart.
\<close>

datatype nodeRef = UndefinedNode | NullNode | NodeFront node

text \<open>
  \<open>state.documentCurrentTime\<close>: a number, or \<open>undefined\<close> on a server that does not
  send it. \<open>NaN\<close> and zero are the falsy numbers.
\<close>

datatype jsnum = Undefined | NaN | Number real

datatype numberOrFalse = JSFalse | JSNumber real

fun documentCurrentTimeLoop :: "real \<Rightarrow> jsnum list \<Rightarrow> numberOrFalse" where
  "documentCurrentTimeLoop time [] = JSNumber time"
| "documentCurrentTimeLoop time (Undefined # states) = JSFalse"
| "documentCurrentTimeLoop time (NaN # states) = JSFalse"
| "documentCurrentTimeLoop time (Number t # states) =
     (if t = 0 then JSFalse else documentCurrentTimeLoop (max time t) states)"

definition documentCurrentTime :: "(player \<Rightarrow> jsnum) \<Rightarrow> player list \<Rightarrow> numberOrFalse" where
  "documentCurrentTime stateOf animationPlayers =
     documentCurrentTimeLoop 0 (map stateOf animationPlayers)"

fun falsy :: "jsnum \<Rightarrow> bool" where
  "falsy Undefined = True"
| "falsy NaN = True"
| "falsy (Number t) = (t = 0)"

fun numberOf :: "jsnum \<Rightarrow> real" where
  "numberOf (Number t) = t"
| "numberOf _ = 0"

text \<open>The objects that emit events, and the controller's three bound handlers.\<close>

datatype emitter = Selection | Sidebar | Toolbox | AnimationsFront | Timer

datatype handler = OnNewNodeFront | OnPanelVisibilityChange | OnAnimationMutations

text \<open>\<open>gToolbox\<close> and \<open>gInspector\<close>, as the handlers read them.\<close>

record host =
  currentToolId :: string
  sidebarTab :: "string option"
  selectionNodeFront :: nodeRef
  isConnected :: bool
  isElementNode :: bool

datatype acall =
    StopAnimationPlayerUpdates
  | Release player
  | GetAnimationPlayersForNode nodeRef

datatype aevent =
    ACalled acall
  | ASettled "jserror + player list"
  | Emit string "player list option"
  | Updating string
  | Done
  | On emitter string handler
  | Off emitter string handler

text \<open>
  The controller's fields that the modelled methods use (of \<open>traits\<close>, only
  \<open>hasMutationEvents\<close>), the listeners registered so far, the trace, and the script of
  how the remote calls still to come will settle.
\<close>

record controller =
  animationPlayers :: "player list"
  nodeFront :: nodeRef
  isListeningToMutations :: bool
  hasMutationEvents :: bool
  registered :: "(emitter \<times> string \<times> handler) list"
  atrace :: "aevent list"
  ascript :: "(jserror + player list) list"

definition PLAYERS_UPDATED_EVENT :: string where
  "PLAYERS_UPDATED_EVENT = ''players-updated''"

definition logEvent :: "aevent \<Rightarrow> controller \<Rightarrow> controller" where
  "logEvent ev c = c\<lparr>atrace := atrace c @ [ev]\<rparr>"

definition on :: "emitter \<Rightarrow> string \<Rightarrow> handler \<Rightarrow> controller \<Rightarrow> controller" where
  "on em name h c = logEvent (On em name h) (c\<lparr>registered := registered c @ [(em, name, h)]\<rparr>)"

definition off :: "emitter \<Rightarrow> string \<Rightarrow> handler \<Rightarrow> controller \<Rightarrow> controller" where
  "off em name h c =
     logEvent (Off em name h) (c\<lparr>registered := removeAll (em, name, h) (registered c)\<rparr>)"

definition await :: "acall \<Rightarrow> controller \<Rightarrow> (jserror + player list) option \<times> controller" where
  "await call c =
     (case ascript c of
        [] \<Rightarrow> (None, logEvent (ACalled call) c)
      | r # rs \<Rightarrow> (Some r, logEvent (ASettled r) (logEvent (ACalled call) (c\<lparr>ascript := rs\<rparr>))))"

text \<open>\<open>for (let front of this.animationPlayers) await front.release()\<close>\<close>

fun releaseAll :: "player list \<Rightarrow> controller \<Rightarrow> unit outcome \<times> controller" where
  "releaseAll [] c = (Returned (), c)"
| "releaseAll (front # fronts) c =
     (case await (Release front) c of
        (None, c1) \<Rightarrow> (Suspended, c1)
      | (Some (Inl error), c1) \<Rightarrow> (Threw error, c1)
      | (Some (Inr _), c1) \<Rightarrow> releaseAll fronts c1)"

definition destroyAnimationPlayers :: "controller \<Rightarrow> unit outcome \<times> controller" where
  "destroyAnimationPlayers c0 =
     (case (if hasMutationEvents c0 then await StopAnimationPlayerUpdates c0
            else (Some (Inr []), c0)) of
        (None, c1) \<Rightarrow> (Suspended, c1)
      | (Some (Inl error), c1) \<Rightarrow> (Threw error, c1)
      | (Some (Inr _), c1) \<Rightarrow>
          (case releaseAll (animationPlayers c1) c1 of
             (Returned _, c2) \<Rightarrow> (Returned (), c2\<lparr>animationPlayers := []\<rparr>)
           | (other, c2) \<Rightarrow> (other, c2)))"

definition refreshAnimationPlayers :: "nodeRef \<Rightarrow> controller \<Rightarrow> unit outcome \<times> controller" where
  "refreshAnimationPlayers nodeFront' c0 =
     (case destroyAnimationPlayers c0 of
        (Returned _, c1) \<Rightarrow>
          (case await (GetAnimationPlayersForNode nodeFront') c1 of
             (None, c2) \<Rightarrow> (Suspended, c2)
           | (Some (Inl error), c2) \<Rightarrow> (Threw error, c2)
           | (Some (Inr players), c2) \<Rightarrow>
               (let c3 = c2\<lparr>animationPlayers := players\<rparr>
                in (Returned (),
                    if \<not> isListeningToMutations c3 \<and> hasMutationEvents c3
                    then (on AnimationsFront ''mutations'' OnAnimationMutations c3)
                           \<lparr>isListeningToMutations := True\<rparr>
                    else c3)))
      | (other, c1) \<Rightarrow> (other, c1))"

text \<open>
  \<open>Array.prototype.indexOf\<close> (the first index, or \<open>-1\<close>) and
  \<open>Array.prototype.splice(index, 1)\<close>, whose negative start counts from the end.
\<close>

fun indexOf :: "'a list \<Rightarrow> 'a \<Rightarrow> int" where
  "indexOf [] y = -1"
| "indexOf (x # xs) y =
     (if x = y then 0 else (let k = indexOf xs y in if k < 0 then -1 else k + 1))"

definition splice1 :: "int \<Rightarrow> 'a list \<Rightarrow> 'a list" where
  "splice1 index xs =
     (let len = int (length xs);
          start = (if index < 0 then max (len + index) 0 else min index len)
      in take (nat start) xs @ drop (nat start + 1) xs)"

text \<open>The loop over \<open>changes\<close>; a change is its \<open>type\<close> and its \<open>player\<close>.\<close>

fun mutationsLoop :: "(string \<times> player) list \<Rightarrow> controller \<Rightarrow> unit outcome \<times> controller" where
  "mutationsLoop [] c = (Returned (), c)"
| "mutationsLoop ((type, player) # changes) c0 =
     (let c1 = (if type = ''added''
                then c0\<lparr>animationPlayers := animationPlayers c0 @ [player]\<rparr> else c0)
      in if type = ''removed''
         then (case await (Release player) c1 of
                 (None, c2) \<Rightarrow> (Suspended, c2)
               | (Some (Inl error), c2) \<Rightarrow> (Threw error, c2)
               | (Some (Inr _), c2) \<Rightarrow>
                   (let index = indexOf (animationPlayers c2) player
                    in mutationsLoop changes
                         (c2\<lparr>animationPlayers := splice1 index (animationPlayers c2)\<rparr>)))
         else mutationsLoop changes c1)"

definition onAnimationMutations :: "(string \<times> player) list \<Rightarrow> controller \<Rightarrow> unit outcome \<times> controller" where
  "onAnimationMutations changes c0 =
     (case mutationsLoop changes c0 of
        (Returned _, c1) \<Rightarrow>
          (Returned (), logEvent (Emit PLAYERS_UPDATED_EVENT (Some (animationPlayers c1))) c1)
      | (other, c1) \<Rightarrow> (other, c1))"

definition startListeners :: "controller \<Rightarrow> controller" where
  "startListeners c =
     on Toolbox ''select'' OnPanelVisibilityChange
       (on Sidebar ''select'' OnPanelVisibilityChange
         (on Selection ''new-node-front'' OnNewNodeFront c))"

definition stopListeners :: "controller \<Rightarrow> controller" where
  "stopListeners c =
     (let c3 = off Toolbox ''select'' OnPanelVisibilityChange
                 (off Sidebar ''select'' OnPanelVisibilityChange
                   (off Selection ''new-node-front'' OnNewNodeFront c))
      in if isListeningToMutations c3
         then off AnimationsFront ''mutations'' OnAnimationMutations c3 else c3)"

definition isPanelVisible :: "host \<Rightarrow> bool" where
  "isPanelVisible h \<longleftrightarrow>
     currentToolId h = ''inspector'' \<and> sidebarTab h \<noteq> None \<and>
     sidebarTab h = Some ''animationinspector''"

definition onNewNodeFront :: "host \<Rightarrow> controller \<Rightarrow> unit outcome \<times> controller" where
  "onNewNodeFront h c0 =
     (if \<not> isPanelVisible h \<or> nodeFront c0 = selectionNodeFront h
      then (Returned (), c0)
      else
        let c1 = logEvent (Updating ''animationscontroller'') c0 in
        if \<not> isConnected h \<or> \<not> isElementNode h
        then (case destroyAnimationPlayers c1 of
                (Returned _, c2) \<Rightarrow>
                  (Returned (), logEvent Done (logEvent (Emit PLAYERS_UPDATED_EVENT None) c2))
              | (other, c2) \<Rightarrow> (other, c2))
        else
          (let c2 = c1\<lparr>nodeFront := selectionNodeFront h\<rparr>
           in case refreshAnimationPlayers (nodeFront c2) c2 of
                (Returned _, c3) \<Rightarrow>
                  (Returned (),
                   logEvent Done (logEvent (Emit PLAYERS_UPDATED_EVENT (Some (animationPlayers c3))) c3))
              | (other, c3) \<Rightarrow> (other, c3)))"

text \<open>
  \<open>onPanelVisibilityChange\<close> starts \<open>onNewNodeFront\<close> and returns without waiting
  for it.
\<close>

definition onPanelVisibilityChange :: "host \<Rightarrow> controller \<Rightarrow> unit outcome \<times> controller" where
  "onPanelVisibilityChange h c0 =
     (if isPanelVisible h then (Returned (), snd (onNewNodeFront h c0))
      else (Returned (), c0))"

text \<open>
  An emitter fires an event: the handlers that are registered for it at that moment
  run, in the order of their registration. The emitter does not look at what they
  return. \<open>changes\<close> is the payload of a \<open>mutations\<close> event.
\<close>

fun runHandler :: "host \<Rightarrow> (string \<times> player) list \<Rightarrow> handler \<Rightarrow> controller \<Rightarrow> controller" where
  "runHandler h changes OnNewNodeFront c = snd (onNewNodeFront h c)"
| "runHandler h changes OnPanelVisibilityChange c = snd (onPanelVisibilityChange h c)"
| "runHandler h changes OnAnimationMutations c = snd (onAnimationMutations changes c)"

definition handlersFor :: "emitter \<Rightarrow> string \<Rightarrow> controller \<Rightarrow> handler list" where
  "handlersFor em name c =
     map (\<lambda>(em', name', h). h) (filter (\<lambda>(em', name', h). em' = em \<and> name' = name) (registered c))"

definition fire :: "host \<Rightarrow> emitter \<Rightarrow> string \<Rightarrow> (string \<times> player) list \<Rightarrow> controller \<Rightarrow> controller" where
  "fire h em name changes c = fold (runHandler h changes) (handlersFor em name c) c"

text \<open>A run refreshed the list: it asked the front for the players of a node.\<close>

fun isRefresh :: "aevent \<Rightarrow> bool" where
  "isRefresh (ACalled (GetAnimationPlayersForNode _)) = True"
| "isRefresh _ = False"

definition refreshed :: "controller \<Rightarrow> controller \<Rightarrow> bool" where
  "refreshed c c' \<longleftrightarrow> list_ex isRefresh (drop (length (atrace c)) (atrace c'))"

text \<open>
  The controllers that can arise: \<open>startListeners\<close> on a controller that has no
  listener yet, and then any sequence of events from the emitters, of direct calls
  of \<open>onNewNodeFront\<close> (\<open>initialize\<close> makes one) and of \<open>stopListeners\<close>.
\<close>

inductive reachable :: "controller \<Rightarrow> bool" where
  started: "registered c = [] \<Longrightarrow> \<not> isListeningToMutations c \<Longrightarrow> reachable (startListeners c)"
| fired: "reachable c \<Longrightarrow> reachable (fire h em name changes c)"
| called: "reachable c \<Longrightarrow> reachable (snd (onNewNodeFront h c))"
| stopped: "reachable c \<Longrightarrow> reachable (stopListeners c)"

section \<open>Notions used in the statements and proofs\<close>

subsection \<open>The census loop, turn by turn\<close>

text \<open>
  The world in which a turn of the census loop that began in \<open>w\<close> goes on, once its
  call has settled as \<open>r\<close> says.
\<close>

definition afterCensusCall :: "env \<Rightarrow> snapshotId \<Rightarrow> snapshot \<Rightarrow> response \<Rightarrow> response list \<Rightarrow> world \<Rightarrow> world" where
  "afterCensusCall e i s r rs w =
     \<lparr>store = applyAll e (during r) (reducer e (censusStart i w) (store w)),
      trace = trace w @ [Dispatched (censusStart i w), Called (censusCall s w)] @
              map External (during r) @ [Settled (result r)],
      script = rs\<rparr>"

text \<open>The loop's condition: the values used for the census are no longer the state's.\<close>

definition mismatch :: "env \<Rightarrow> world \<Rightarrow> world \<Rightarrow> bool" where
  "mismatch e w w2 \<longleftrightarrow>
     inverted (store w) \<noteq> inverted (store w2) \<or> filter' (store w) \<noteq> filter' (store w2) \<or>
     \<not> breakdownEquals e (breakdown (store w)) (breakdown (store w2))"

text \<open>
  What a run of the loop adds to the trace: turns that are followed by another turn,
  then a last turn, which is left suspended, or fails, or ends the census with the
  values that the state holds when its call has settled.
\<close>

definition censusRun :: "env \<Rightarrow> snapshotId \<Rightarrow> snapshot \<Rightarrow> appState \<Rightarrow> unit outcome \<Rightarrow> event list \<Rightarrow> bool" where
  "censusRun e i s st0 out evs \<longleftrightarrow>
     (\<exists>pre ivt f b ext.
        list_all quietEvent pre \<and>
        (let turn = pre @ [Dispatched (TAKE_CENSUS_START i ivt f b),
                           Called (TakeCensus (path s) b (censusOptions ivt f))] @
                    map External ext;
             st = applyAll e (actionsOf turn) st0
         in (out = Suspended \<and> ext = [] \<and> evs = turn) \<or>
            (\<exists>error. out = Returned () \<and>
               evs = turn @ [Settled (Inl error), Reported ''takeCensus'' error,
                             Dispatched (SNAPSHOT_ERROR i error)]) \<or>
            (\<exists>report'. out = Returned () \<and>
               evs = turn @ [Settled (Inr report'),
                             Dispatched (TAKE_CENSUS_END i b ivt f report')] \<and>
               inverted st = ivt \<and> filter' st = f \<and> breakdownEquals e b (breakdown st))))"

text \<open>
  A run that a failed call aborted: the first rejection is followed by the report of
  the error and by \<open>SNAPSHOT_ERROR\<close>, and by nothing else.
\<close>

definition abortedAt :: "string \<Rightarrow> snapshotId \<Rightarrow> jserror \<Rightarrow> event list \<Rightarrow> bool" where
  "abortedAt who i error evs \<longleftrightarrow>
     (\<exists>pre. evs = pre @ [Settled (Inl error), Reported who error,
                          Dispatched (SNAPSHOT_ERROR i error)] \<and>
            (\<forall>x. Settled (Inl x) \<notin> set pre))"

text \<open>
  A value \<open>v\<close> is attached to an action after the call \<open>c\<close> resolves: the run ends
  with the call, what others dispatched meanwhile, the resolution with \<open>v\<close>, and the
  action.
\<close>

definition attachedAfter :: "call \<Rightarrow> jsval \<Rightarrow> action \<Rightarrow> event list \<Rightarrow> bool" where
  "attachedAfter c v a evs \<longleftrightarrow>
     (\<exists>pre ext. evs = pre @ [Called c] @ map External ext @ [Settled (Inr v), Dispatched a])"

text \<open>
  A run of the census loop ends the census with \<open>b\<close>, \<open>ivt\<close>, \<open>f\<close> and the report:
  its last turn starts and takes the census with these values, the call resolves with
  the report, \<open>TAKE_CENSUS_END\<close> carries all four, and the values are those of the
  state at that moment (the state before the run, after all the actions of the run
  but the last).
\<close>

definition endsCensus :: "env \<Rightarrow> snapshotId \<Rightarrow> snapshot \<Rightarrow> appState \<Rightarrow> breakdown \<Rightarrow> bool \<Rightarrow> string option \<Rightarrow> jsval \<Rightarrow> event list \<Rightarrow> bool" where
  "endsCensus e i s st0 b ivt f report' evs \<longleftrightarrow>
     (\<exists>pre ext.
        list_all quietEvent pre \<and>
        evs = pre @ [Dispatched (TAKE_CENSUS_START i ivt f b),
                     Called (TakeCensus (path s) b (censusOptions ivt f))] @
              map External ext @
              [Settled (Inr report'), Dispatched (TAKE_CENSUS_END i b ivt f report')] \<and>
        inverted (applyAll e (actionsOf (butlast evs)) st0) = ivt \<and>
        filter' (applyAll e (actionsOf (butlast evs)) st0) = f \<and>
        breakdownEquals e b (breakdown (applyAll e (actionsOf (butlast evs)) st0)))"

text \<open>
  The loop as the specification words it, told from the state in which a turn begins
  and from the responses still to come. With no response left the call never settles
  and the run stays suspended. A rejected call ends the run. When the call resolves
  and the breakdown, inversion and filter used for the census are still the state's,
  \<open>TAKE_CENSUS_END\<close> is dispatched with them and the report; when they are not, the
  census is taken again, against the responses that are left.
\<close>

inductive censusTurns :: "env \<Rightarrow> snapshotId \<Rightarrow> snapshot \<Rightarrow> appState \<Rightarrow> response list \<Rightarrow> event list \<Rightarrow> unit outcome \<Rightarrow> bool"
  for e :: env and i :: snapshotId and s :: snapshot where
  pending:
    "censusTurns e i s st []
       [Dispatched (TAKE_CENSUS_START i (inverted st) (filter' st) (breakdown st)),
        Called (TakeCensus (path s) (breakdown st) (censusOptions (inverted st) (filter' st)))]
       Suspended"
| failed:
    "result r = Inl error \<Longrightarrow>
     censusTurns e i s st (r # rs)
       ([Dispatched (TAKE_CENSUS_START i (inverted st) (filter' st) (breakdown st)),
         Called (TakeCensus (path s) (breakdown st) (censusOptions (inverted st) (filter' st)))] @
        map External (during r) @
        [Settled (Inl error), Reported ''takeCensus'' error, Dispatched (SNAPSHOT_ERROR i error)])
       (Returned ())"
| current:
    "result r = Inr report' \<Longrightarrow>
     st' = applyAll e (during r)
             (reducer e (TAKE_CENSUS_START i (inverted st) (filter' st) (breakdown st)) st) \<Longrightarrow>
     inverted st' = inverted st \<Longrightarrow> filter' st' = filter' st \<Longrightarrow>
     breakdownEquals e (breakdown st) (breakdown st') \<Longrightarrow>
     censusTurns e i s st (r # rs)
       ([Dispatched (TAKE_CENSUS_START i (inverted st) (filter' st) (breakdown st)),
         Called (TakeCensus (path s) (breakdown st) (censusOptions (inverted st) (filter' st)))] @
        map External (during r) @
        [Settled (Inr report'),
         Dispatched (TAKE_CENSUS_END i (breakdown st) (inverted st) (filter' st) report')])
       (Returned ())"
| again:
    "result r = Inr report' \<Longrightarrow>
     st' = applyAll e (during r)
             (reducer e (TAKE_CENSUS_START i (inverted st) (filter' st) (breakdown st)) st) \<Longrightarrow>
     inverted st' \<noteq> inverted st \<or> filter' st' \<noteq> filter' st \<or>
       \<not> breakdownEquals e (breakdown st) (breakdown st') \<Longrightarrow>
     censusTurns e i s st' rs evs out \<Longrightarrow>
     censusTurns e i s st (r # rs)
       ([Dispatched (TAKE_CENSUS_START i (inverted st) (filter' st) (breakdown st)),
         Called (TakeCensus (path s) (breakdown st) (censusOptions (inverted st) (filter' st)))] @
        map External (during r) @ [Settled (Inr report')] @ evs)
       out"

text \<open>
  The state in which the first turn of the loop ends, when its call settles as \<open>r\<close>
  says: the start action and what the others dispatched meanwhile have gone through
  the reducer.
\<close>

definition afterFirstTurn :: "env \<Rightarrow> snapshotId \<Rightarrow> response \<Rightarrow> appState \<Rightarrow> appState" where
  "afterFirstTurn e i r st =
     applyAll e (during r)
       (reducer e (TAKE_CENSUS_START i (inverted st) (filter' st) (breakdown st)) st)"

text \<open>The values of \<open>st\<close> are still those of \<open>st'\<close>: the loop's condition is false.\<close>

definition stillCurrent :: "env \<Rightarrow> appState \<Rightarrow> appState \<Rightarrow> bool" where
  "stillCurrent e st st' \<longleftrightarrow>
     inverted st' = inverted st \<and> filter' st' = filter' st \<and>
     breakdownEquals e (breakdown st) (breakdown st')"

text \<open>
  What the responses to come say of a run of the loop that begins in state \<open>st\<close>:
  the census ends at the first response that resolves while the values used are still
  the state's, unless a response before it is a rejection or the responses run out
  first; it ends with the values of the turn and the report of that response.
\<close>

fun endOfCensus :: "env \<Rightarrow> snapshotId \<Rightarrow> appState \<Rightarrow> response list \<Rightarrow> (breakdown \<times> bool \<times> string option \<times> jsval) option" where
  "endOfCensus e i st [] = None"
| "endOfCensus e i st (r # rs) =
     (case result r of
        Inl error \<Rightarrow> None
      | Inr report' \<Rightarrow>
          if stillCurrent e st (afterFirstTurn e i r st)
          then Some (breakdown st, inverted st, filter' st, report')
          else endOfCensus e i (afterFirstTurn e i r st) rs)"

text \<open>
  Every report in \<open>evs\<close> is explained: it reports the error of a rejected call and
  comes right after the rejection, or it is the report that a failed assertion makes,
  and then it is the last event.
\<close>

definition explained :: "event list \<Rightarrow> bool" where
  "explained evs \<longleftrightarrow>
     (\<forall>pre who error post.
        evs = pre @ Reported who error # post \<longrightarrow>
        (\<exists>pre'. pre = pre' @ [Settled (Inl error)]) \<or>
        (who = ''DevToolsUtils.assert'' \<and> post = []))"

text \<open>
  The same, computed along the list, for the reports of rejected calls: \<open>justified p evs\<close>
  when every report in \<open>evs\<close> comes right after the rejection it reports, \<open>p\<close> being
  the event before \<open>evs\<close>.
\<close>

fun isReport :: "event \<Rightarrow> bool" where
  "isReport (Reported _ _) = True"
| "isReport _ = False"

fun justified :: "event option \<Rightarrow> event list \<Rightarrow> bool" where
  "justified p [] = True"
| "justified p (Reported who error # evs) =
     (p = Some (Settled (Inl error)) \<and> justified (Some (Reported who error)) evs)"
| "justified p (ev # evs) = justified (Some ev) evs"

text \<open>
  A run from \<open>w\<close> to \<open>w'\<close> that added \<open>evs\<close> to the trace is orderly when the
  store of \<open>w'\<close> is the store of \<open>w\<close> after the actions of \<open>evs\<close> have gone through
  the reducer, in order, and every report in \<open>evs\<close> is explained.
\<close>

definition orderly :: "env \<Rightarrow> world \<Rightarrow> world \<Rightarrow> event list \<Rightarrow> bool" where
  "orderly e w w' evs \<longleftrightarrow>
     trace w' = trace w @ evs \<and> store w' = applyAll e (actionsOf evs) (store w) \<and>
     explained evs"

text \<open>
  A task reads nothing but what \<open>getState()\<close> returns and what its calls resolve
  with: put into a world with the same store and the same responses to come, whatever
  happened there before, it ends in the same way, emits the same events and leaves the
  same store and the same responses.
\<close>

definition readsStateOnly :: "(world \<Rightarrow> 'a outcome \<times> world) \<Rightarrow> bool" where
  "readsStateOnly run \<longleftrightarrow>
     (\<forall>w v. store v = store w \<and> script v = script w \<longrightarrow>
        fst (run v) = fst (run w) \<and>
        emitted v (snd (run v)) = emitted w (snd (run w)) \<and>
        store (snd (run v)) = store (snd (run w)) \<and>
        script (snd (run v)) = script (snd (run w)))"

subsection \<open>The records and the responses\<close>

text \<open>The three fields of the record with id \<open>i\<close> that responses fill, if there is one.\<close>

definition fieldsOf :: "appState \<Rightarrow> snapshotId \<Rightarrow> (jsval option \<times> jsval option \<times> jsval option) option" where
  "fieldsOf st i =
     map_option (\<lambda>x. (path x, creationTime x, report x)) (getSnapshot st i)"

text \<open>
  Modelled from the spec: the reducer of the snapshot records, which is not among
  these sources. The specification (section 3) has ``snapshot records with an
  identifier, a state enum, and optional report/path/creationTime fields'' that are
  ``mutated in place as responses arrive''. The responses arrive in the three end
  actions of \<open>snapshot.js\<close>: \<open>written i a\<close> is what an action \<open>a\<close> does to the three
  fields of the record with id \<open>i\<close>. \<open>TAKE_SNAPSHOT_START\<close> brings the new record in;
  each end action writes the value it carries to its field; no other action touches
  the fields. A reducer \<open>mirrorsResponses\<close> when this is what it does to the records,
  whatever else it does to the state.
\<close>

fun written :: "snapshotId \<Rightarrow> action \<Rightarrow> (jsval option \<times> jsval option \<times> jsval option) option \<Rightarrow> (jsval option \<times> jsval option \<times> jsval option) option" where
  "written i (TAKE_SNAPSHOT_START x) None =
     (if id' x = i then Some (path x, creationTime x, report x) else None)"
| "written i (TAKE_SNAPSHOT_END j p) (Some (old, c, r)) =
     (if j = i then Some (Some p, c, r) else Some (old, c, r))"
| "written i (READ_SNAPSHOT_END j t) (Some (p, old, r)) =
     (if j = i then Some (p, Some t, r) else Some (p, old, r))"
| "written i (TAKE_CENSUS_END j b ivt f report') (Some (p, c, old)) =
     (if j = i then Some (p, c, Some report') else Some (p, c, old))"
| "written i a fs = fs"

definition mirrorsResponses :: "(action \<Rightarrow> appState \<Rightarrow> appState) \<Rightarrow> bool" where
  "mirrorsResponses red \<longleftrightarrow>
     (\<forall>a st i. fieldsOf (red a st) i = written i a (fieldsOf st i))"

text \<open>The fields after a list of actions, one after the other.\<close>

definition writtenAll :: "snapshotId \<Rightarrow> action list \<Rightarrow> (jsval option \<times> jsval option \<times> jsval option) option \<Rightarrow> (jsval option \<times> jsval option \<times> jsval option) option" where
  "writtenAll i as fs = foldl (\<lambda>f a. written i a f) fs as"

text \<open>The actions that write to a record.\<close>

fun writesRecord :: "action \<Rightarrow> bool" where
  "writesRecord (TAKE_SNAPSHOT_START _) = True"
| "writesRecord (TAKE_SNAPSHOT_END _ _) = True"
| "writesRecord (READ_SNAPSHOT_END _ _) = True"
| "writesRecord (TAKE_CENSUS_END _ _ _ _ _) = True"
| "writesRecord _ = False"

text \<open>
  While the calls of a run are pending, nobody else dispatches an action that writes
  to a record.
\<close>

definition undisturbed :: "response list \<Rightarrow> bool" where
  "undisturbed rs \<longleftrightarrow> (\<forall>r \<in> set rs. \<forall>a \<in> set (during r). \<not> writesRecord a)"

subsection \<open>An instance of the parameters\<close>

text \<open>
  The panel's reducers are not part of \<open>snapshot.js\<close>. To run the model on concrete
  inputs, here is a small store: its reducer keeps the list of snapshots, moves
  their states through the ones that \<open>snapshot.js\<close> checks, writes what the end actions
  carry to the records, and takes every \<open>OtherAction\<close> for a click on the \<open>invert\<close>
  toggle.
\<close>

definition sampleSnapshot :: snapshot where
  "sampleSnapshot =
     \<lparr>id' = 1, state = OtherState 0, path = None, creationTime = None, report = None,
      census = None, selected = False\<rparr>"

definition updateSnapshot :: "snapshotId \<Rightarrow> (snapshot \<Rightarrow> snapshot) \<Rightarrow> appState \<Rightarrow> appState" where
  "updateSnapshot i f s = s\<lparr>snapshots := map (\<lambda>x. if id' x = i then f x else x) (snapshots s)\<rparr>"

fun sampleReducer :: "action \<Rightarrow> appState \<Rightarrow> appState" where
  "sampleReducer TOGGLE_DIFFING s = s\<lparr>diffing := \<not> diffing s\<rparr>"
| "sampleReducer (TAKE_SNAPSHOT_START x) s = s\<lparr>snapshots := snapshots s @ [x]\<rparr>"
| "sampleReducer (TAKE_SNAPSHOT_END i p) s = updateSnapshot i (\<lambda>x. x\<lparr>state := SAVED, path := Some p\<rparr>) s"
| "sampleReducer (SELECT_SNAPSHOT i) s = s\<lparr>snapshots := map (\<lambda>x. x\<lparr>selected := (id' x = i)\<rparr>) (snapshots s)\<rparr>"
| "sampleReducer (SNAPSHOT_ERROR i error) s = updateSnapshot i (\<lambda>x. x\<lparr>state := OtherState 1\<rparr>) s"
| "sampleReducer (READ_SNAPSHOT_START i) s = updateSnapshot i (\<lambda>x. x\<lparr>state := OtherState 2\<rparr>) s"
| "sampleReducer (READ_SNAPSHOT_END i t) s =
     updateSnapshot i (\<lambda>x. x\<lparr>state := READ, creationTime := Some t\<rparr>) s"
| "sampleReducer (TAKE_CENSUS_START i iv f b) s = updateSnapshot i (\<lambda>x. x\<lparr>state := OtherState 3\<rparr>) s"
| "sampleReducer (TAKE_CENSUS_END i b iv f report') s =
     updateSnapshot i
       (\<lambda>x. x\<lparr>state := SAVED_CENSUS, report := Some report', census := Some report'\<rparr>) s"
| "sampleReducer (OtherAction n) s = s\<lparr>inverted := \<not> inverted s\<rparr>"

definition sampleEnv :: env where
  "sampleEnv = \<lparr>reducer = sampleReducer, createSnapshot = sampleSnapshot,
     censusIsUpToDate = (\<lambda>iv f b c. c \<noteq> None), breakdownEquals = (=), assertions = True\<rparr>"

definition emptyStore :: appState where
  "emptyStore = \<lparr>diffing = True, inverted = False, breakdown = ''coarseType'', filter' = None, snapshots = []\<rparr>"

definition storeWith :: "snapshotState \<Rightarrow> census option \<Rightarrow> appState" where
  "storeWith st c = emptyStore\<lparr>snapshots := [sampleSnapshot\<lparr>state := st, path := Some ''/tmp/1.fxsnapshot'', census := c\<rparr>]\<rparr>"

definition rejected :: "jserror \<Rightarrow> response" where
  "rejected error = \<lparr>during = [], result = Inl error\<rparr>"

definition resolved :: "jsval \<Rightarrow> response" where
  "resolved v = \<lparr>during = [], result = Inr v\<rparr>"

definition resolvedMeanwhile :: "action list \<Rightarrow> jsval \<Rightarrow> response" where
  "resolvedMeanwhile as v = \<lparr>during = as, result = Inr v\<rparr>"

definition worldOf :: "appState \<Rightarrow> response list \<Rightarrow> world" where
  "worldOf s rs = \<lparr>store = s, trace = [], script = rs\<rparr>"

subsection \<open>Tables of the players' states\<close>

definition tenTimes :: "player \<Rightarrow> jsnum" where
  "tenTimes p = Number (10 * real p)"

definition noTimeOnThree :: "player \<Rightarrow> jsnum" where
  "noTimeOnThree p = (if p = 3 then Undefined else Number (10 * real p))"

text \<open>
  Worlds where a call is rejected (the save; the reading of the creation time; the
  second census, taken after a click on \<open>invert\<close>), and one where every call resolves.
\<close>

definition failingSave :: world where
  "failingSave = worldOf emptyStore [rejected ''boom'']"

definition failingRead :: world where
  "failingRead = worldOf (storeWith SAVED None) [resolved ''ok'', rejected ''boom'']"

definition failingCensus :: world where
  "failingCensus = worldOf (storeWith READ None)
     [resolvedMeanwhile [OtherAction 0] ''report1'', rejected ''boom'']"

definition fullRun :: world where
  "fullRun = worldOf emptyStore
     [resolved ''/tmp/1.fxsnapshot'', resolved ''ok'', resolved ''1446508800'',
      resolvedMeanwhile [OtherAction 0] ''report1'', resolved ''report2'']"

text \<open>
  Worlds for the single tasks, with the snapshot that each finds in the store. In
  \<open>promptWorld\<close> the census call resolves while nobody touches the state; in
  \<open>readWorld\<close> the snapshot has been read already and no response is to come.
\<close>

definition savingWorld :: world where
  "savingWorld = worldOf emptyStore [resolved ''/tmp/1.fxsnapshot'']"

definition savedSnapshot :: snapshot where
  "savedSnapshot = sampleSnapshot\<lparr>state := SAVED, path := Some ''/tmp/1.fxsnapshot'', census := None\<rparr>"

definition savedWorld :: world where
  "savedWorld = worldOf (storeWith SAVED None) [resolved ''ok'', resolved ''1446508800'']"

definition readSnapshot' :: snapshot where
  "readSnapshot' = sampleSnapshot\<lparr>state := READ, path := Some ''/tmp/1.fxsnapshot'', census := None\<rparr>"

definition censusWorld :: world where
  "censusWorld = worldOf (storeWith READ None)
     [resolvedMeanwhile [OtherAction 0] ''report1'', resolved ''report2'']"

definition censusSnapshot :: snapshot where
  "censusSnapshot = sampleSnapshot\<lparr>state := SAVED_CENSUS, path := Some ''/tmp/1.fxsnapshot'',
     census := Some ''report0''\<rparr>"

definition promptWorld :: world where
  "promptWorld = worldOf (storeWith READ None) [resolved ''report1'']"

definition readWorld :: world where
  "readWorld = worldOf (storeWith READ None) []"

definition upToDateWorld :: world where
  "upToDateWorld = worldOf (storeWith SAVED_CENSUS (Some ''report0'')) [resolved ''unused'']"

subsection \<open>The controller's listeners and its trace\<close>

text \<open>The four registrations that the controller ever makes.\<close>

definition allowedListeners :: "(emitter \<times> string \<times> handler) set" where
  "allowedListeners =
     {(Selection, ''new-node-front'', OnNewNodeFront),
      (Sidebar, ''select'', OnPanelVisibilityChange),
      (Toolbox, ''select'', OnPanelVisibilityChange),
      (AnimationsFront, ''mutations'', OnAnimationMutations)}"

text \<open>
  From \<open>c\<close> to \<open>c'\<close> the trace only grows and no listener is registered that is not
  one of the four.
\<close>

definition grows :: "controller \<Rightarrow> controller \<Rightarrow> bool" where
  "grows c c' \<longleftrightarrow>
     (\<exists>evs. atrace c' = atrace c @ evs) \<and>
     set (registered c') \<subseteq> set (registered c) \<union> allowedListeners"

text \<open>
  From \<open>c\<close> to \<open>c'\<close> the trace grows by events none of which is a refresh, and the
  listeners are the same.
\<close>

definition quietly :: "controller \<Rightarrow> controller \<Rightarrow> bool" where
  "quietly c c' \<longleftrightarrow>
     (\<exists>evs. atrace c' = atrace c @ evs \<and> \<not> list_ex isRefresh evs) \<and>
     registered c' = registered c"

text \<open>The fronts that a run released, in order.\<close>

fun releasesOf :: "aevent list \<Rightarrow> player list" where
  "releasesOf [] = []"
| "releasesOf (ACalled (Release p) # evs) = p # releasesOf evs"
| "releasesOf (_ # evs) = releasesOf evs"

text \<open>
  A controller before \<open>startListeners\<close>, whose next two calls will resolve (the
  second with the players 4 and 5); a host in which the panel is visible and an
  element node is selected; and a controller that holds the single player 1.
\<close>

definition freshController :: controller where
  "freshController =
     \<lparr>animationPlayers = [], nodeFront = UndefinedNode, isListeningToMutations = False,
      hasMutationEvents = True, registered = [], atrace = [],
      ascript = [Inr [], Inr [4, 5]]\<rparr>"

definition visibleHost :: host where
  "visibleHost =
     \<lparr>currentToolId = ''inspector'', sidebarTab = Some ''animationinspector'',
      selectionNodeFront = NodeFront 7, isConnected = True, isElementNode = True\<rparr>"

definition holdingOne :: controller where
  "holdingOne =
     \<lparr>animationPlayers = [1], nodeFront = NodeFront 7, isListeningToMutations = True,
      hasMutationEvents = True, registered = [], atrace = [], ascript = [Inr []]\<rparr>"

section \<open>Lemmas\<close>

subsection \<open>The census loop, one turn unfolded\<close>

lemma censusLoop_Nil:
  "script w = [] \<Longrightarrow>
   censusLoop e i s w =
     (Suspended,
      \<lparr>store = reducer e (censusStart i w) (store w),
       trace = trace w @ [Dispatched (censusStart i w), Called (censusCall s w)],
       script = []\<rparr>)"
  by (simp add: censusLoop.simps [of e i s w] Let_def remote_def dispatch_def
        censusStart_def censusCall_def)

lemma censusLoop_Cons:
  "script w = r # rs \<Longrightarrow>
   censusLoop e i s w =
     (case result r of
        Inl error \<Rightarrow>
          (Returned (),
           dispatch e (SNAPSHOT_ERROR i error)
             (reportException ''takeCensus'' error (afterCensusCall e i s r rs w)))
      | Inr report' \<Rightarrow>
          if mismatch e w (afterCensusCall e i s r rs w)
          then censusLoop e i s (afterCensusCall e i s r rs w)
          else (Returned (),
                dispatch e
                  (TAKE_CENSUS_END i (breakdown (store w)) (inverted (store w))
                     (filter' (store w)) report')
                  (afterCensusCall e i s r rs w)))"
  by (cases w)
     (simp add: censusLoop.simps [of e i s] Let_def remote_def dispatch_def reportException_def
        censusStart_def censusCall_def afterCensusCall_def mismatch_def split: sum.splits)

subsection \<open>Traces and the actions they replay\<close>

lemma actionsOf_append [simp]: "actionsOf (xs @ ys) = actionsOf xs @ actionsOf ys"
  by (induction xs rule: actionsOf.induct) simp_all

lemma actionsOf_External [simp]: "actionsOf (map External as) = as"
  by (induction as) simp_all

lemma tasksOf_append [simp]: "tasksOf (xs @ ys) = tasksOf xs @ tasksOf ys"
  by (induction xs rule: tasksOf.induct) simp_all

lemma tasksOf_External [simp]: "tasksOf (map External as) = []"
  by (induction as) simp_all

lemma quiet_External [simp]: "list_all quietEvent (map External as)"
  by (induction as) simp_all

lemma applyAll_append [simp]: "applyAll e (as @ bs) st = applyAll e bs (applyAll e as st)"
  by (simp add: applyAll_def)

lemma applyAll_Nil [simp]: "applyAll e [] st = st"
  by (simp add: applyAll_def)

lemma applyAll_Cons [simp]: "applyAll e (a # as) st = applyAll e as (reducer e a st)"
  by (simp add: applyAll_def)

subsection \<open>The shape of a run of the census loop\<close>

lemma censusRun_prepend:
  assumes "list_all quietEvent first"
    and "censusRun e i s (applyAll e (actionsOf first) st0) out evs"
  shows "censusRun e i s st0 out (first @ evs)"
proof -
  from assms(2) obtain pre ivt f b ext where q: "list_all quietEvent pre"
    and c: "(let turn = pre @ [Dispatched (TAKE_CENSUS_START i ivt f b),
                           Called (TakeCensus (path s) b (censusOptions ivt f))] @
                    map External ext;
             st = applyAll e (actionsOf turn) (applyAll e (actionsOf first) st0)
         in (out = Suspended \<and> ext = [] \<and> evs = turn) \<or>
            (\<exists>error. out = Returned () \<and>
               evs = turn @ [Settled (Inl error), Reported ''takeCensus'' error,
                             Dispatched (SNAPSHOT_ERROR i error)]) \<or>
            (\<exists>report'. out = Returned () \<and>
               evs = turn @ [Settled (Inr report'),
                             Dispatched (TAKE_CENSUS_END i b ivt f report')] \<and>
               inverted st = ivt \<and> filter' st = f \<and> breakdownEquals e b (breakdown st)))"
    unfolding censusRun_def by blast
  show ?thesis
    unfolding censusRun_def
    apply (rule exI [of _ "first @ pre"])
    apply (rule exI [of _ ivt])
    apply (rule exI [of _ f])
    apply (rule exI [of _ b])
    apply (rule exI [of _ ext])
    using assms(1) q c
    apply (simp add: Let_def)
    done
qed

lemma censusLoop_run:
  "censusLoop e i s w = (out, w') \<Longrightarrow>
   \<exists>evs. trace w' = trace w @ evs \<and> store w' = applyAll e (actionsOf evs) (store w) \<and>
         censusRun e i s (store w) out evs"
proof (induction rs \<equiv> "script w" arbitrary: w)
  case Nil
  then have "script w = []" by simp
  with Nil.prems have eq: "out = Suspended"
    "w' = \<lparr>store = reducer e (censusStart i w) (store w),
       trace = trace w @ [Dispatched (censusStart i w), Called (censusCall s w)],
       script = []\<rparr>"
    using censusLoop_Nil [of w e i s] by simp_all
  have "censusRun e i s (store w) Suspended
          [Dispatched (censusStart i w), Called (censusCall s w)]"
    unfolding censusRun_def
    apply (rule exI [of _ "[]"])
    apply (rule exI [of _ "inverted (store w)"])
    apply (rule exI [of _ "filter' (store w)"])
    apply (rule exI [of _ "breakdown (store w)"])
    apply (rule exI [of _ "[]"])
    apply (simp add: censusStart_def censusCall_def)
    done
  with eq show ?case by simp
next
  case (Cons r rs)
  let ?w2 = "afterCensusCall e i s r rs w"
  let ?first = "[Dispatched (censusStart i w), Called (censusCall s w)] @
              map External (during r) @ [Settled (result r)]"
  have sc: "script w = r # rs" using Cons.hyps(2) by simp
  have tr2: "trace ?w2 = trace w @ ?first" by (simp add: afterCensusCall_def)
  have st2: "store ?w2 = applyAll e (actionsOf ?first) (store w)"
    by (simp add: afterCensusCall_def)
  show ?case
  proof (cases "result r")
    case (Inl error)
    with Cons.prems sc have eq: "out = Returned ()"
      "w' = dispatch e (SNAPSHOT_ERROR i error) (reportException ''takeCensus'' error ?w2)"
      using censusLoop_Cons [of w r rs e i s] by simp_all
    have "censusRun e i s (store w) (Returned ())
            (?first @ [Reported ''takeCensus'' error, Dispatched (SNAPSHOT_ERROR i error)])"
      unfolding censusRun_def
      apply (rule exI [of _ "[]"])
      apply (rule exI [of _ "inverted (store w)"])
      apply (rule exI [of _ "filter' (store w)"])
      apply (rule exI [of _ "breakdown (store w)"])
      apply (rule exI [of _ "during r"])
      apply (simp add: censusStart_def censusCall_def Inl)
      done
    with eq tr2 st2 show ?thesis
      by (simp add: dispatch_def reportException_def)
  next
    case (Inr report')
    show ?thesis
    proof (cases "mismatch e w ?w2")
      case True
      with Cons.prems sc Inr have "censusLoop e i s ?w2 = (out, w')"
        using censusLoop_Cons [of w r rs e i s] by simp
      moreover have "rs = script ?w2" by (simp add: afterCensusCall_def)
      ultimately obtain evs where evs: "trace w' = trace ?w2 @ evs"
        "store w' = applyAll e (actionsOf evs) (store ?w2)"
        "censusRun e i s (store ?w2) out evs"
        using Cons.hyps(1) [of ?w2] by blast
      have "list_all quietEvent ?first"
        by (simp add: censusStart_def Inr)
      with evs(3) st2 have "censusRun e i s (store w) out (?first @ evs)"
        using censusRun_prepend [of ?first e i s "store w" out evs] by simp
      with evs(1,2) tr2 st2 show ?thesis by simp
    next
      case False
      with Cons.prems sc Inr have eq: "out = Returned ()"
        "w' = dispatch e (TAKE_CENSUS_END i (breakdown (store w)) (inverted (store w))
                     (filter' (store w)) report') ?w2"
        using censusLoop_Cons [of w r rs e i s] by simp_all
      have "censusRun e i s (store w) (Returned ())
            (?first @ [Dispatched (TAKE_CENSUS_END i (breakdown (store w)) (inverted (store w))
                     (filter' (store w)) report')])"
        unfolding censusRun_def
        apply (rule exI [of _ "[]"])
        apply (rule exI [of _ "inverted (store w)"])
        apply (rule exI [of _ "filter' (store w)"])
        apply (rule exI [of _ "breakdown (store w)"])
        apply (rule exI [of _ "during r"])
        using False
        apply (simp add: censusStart_def censusCall_def Inr mismatch_def afterCensusCall_def)
        done
      with eq tr2 st2 show ?thesis
        by (simp add: dispatch_def)
    qed
  qed
qed

lemma quiet_no_failure: "list_all quietEvent pre \<Longrightarrow> Settled (Inl x) \<notin> set pre"
  by (auto simp: list_all_iff)

lemma quiet_no_report: "list_all quietEvent pre \<Longrightarrow> Reported who x \<notin> set pre"
  by (auto simp: list_all_iff)

lemma quiet_no_end: "list_all quietEvent pre \<Longrightarrow> Dispatched (TAKE_CENSUS_END j b ivt f rep) \<notin> set pre"
  by (auto simp: list_all_iff)

lemma quiet_no_task: "list_all quietEvent pre \<Longrightarrow> tasksOf pre = []"
  by (induction pre rule: tasksOf.induct) simp_all

lemma emitted_append [simp]: "trace w' = trace w @ evs \<Longrightarrow> emitted w w' = evs"
  by (simp add: emitted_def)

lemma takeCensus_cases:
  assumes "takeCensus e i w = (out, w')"
  shows "(w' = w \<and> out \<noteq> Suspended) \<or>
         (\<exists>message. out = Threw message \<and>
            w' = reportException ''DevToolsUtils.assert'' message w) \<or>
         (\<exists>s evs. getSnapshot (store w) i = Some s \<and>
            \<not> censusIsUpToDate e (inverted (store w)) (filter' (store w))
                  (breakdown (store w)) (census s) \<and>
            trace w' = trace w @ evs \<and> store w' = applyAll e (actionsOf evs) (store w) \<and>
            censusRun e i s (store w) out evs)"
  using assms censusLoop_run [of e i _ w out w']
  by (auto simp: takeCensus_def failedAssertion_def noSnapshot_def split: option.splits if_splits)

lemma censusRun_failure:
  assumes "censusRun e i s st out evs" and "Settled (Inl error) \<in> set evs"
  shows "out = Returned () \<and> abortedAt ''takeCensus'' i error evs"
proof -
  from assms(1) obtain pre ivt f b ext where q: "list_all quietEvent pre"
    and c: "(out = Suspended \<and> ext = [] \<and> evs = pre @ [Dispatched (TAKE_CENSUS_START i ivt f b),
                           Called (TakeCensus (path s) b (censusOptions ivt f))] @
                    map External ext) \<or>
            (\<exists>error. out = Returned () \<and>
               evs = (pre @ [Dispatched (TAKE_CENSUS_START i ivt f b),
                           Called (TakeCensus (path s) b (censusOptions ivt f))] @
                    map External ext) @ [Settled (Inl error), Reported ''takeCensus'' error,
                             Dispatched (SNAPSHOT_ERROR i error)]) \<or>
            (\<exists>report'. out = Returned () \<and>
               evs = (pre @ [Dispatched (TAKE_CENSUS_START i ivt f b),
                           Called (TakeCensus (path s) b (censusOptions ivt f))] @
                    map External ext) @ [Settled (Inr report'),
                             Dispatched (TAKE_CENSUS_END i b ivt f report')])"
    unfolding censusRun_def Let_def by blast
  let ?turn = "pre @ [Dispatched (TAKE_CENSUS_START i ivt f b),
                           Called (TakeCensus (path s) b (censusOptions ivt f))] @
                    map External ext"
  have nf: "\<And>x. Settled (Inl x) \<notin> set ?turn"
    using quiet_no_failure [OF q] by auto
  from c assms(2) nf obtain error' where out: "out = Returned ()"
    and evs: "evs = ?turn @ [Settled (Inl error'), Reported ''takeCensus'' error',
                             Dispatched (SNAPSHOT_ERROR i error')]"
    by auto
  with assms(2) nf have "error' = error" by auto
  with evs nf have "abortedAt ''takeCensus'' i error evs"
    unfolding abortedAt_def by blast
  with out show ?thesis by simp
qed

subsection \<open>The loop of the \<open>documentCurrentTime\<close> getter\<close>

lemma documentCurrentTimeLoop_eq:
  "documentCurrentTimeLoop time ds =
     (if \<exists>d \<in> set ds. falsy d then JSFalse
      else JSNumber (Max (insert time (numberOf ` set ds))))"
proof (induction time ds rule: documentCurrentTimeLoop.induct)
  case (4 time t states)
  have "Max (insert (max time t) (numberOf ` set states)) =
        Max (insert time (insert t (numberOf ` set states)))"
    by (cases "set states = {}") (simp_all add: max.assoc)
  with 4 show ?case by simp
qed simp_all

subsection \<open>Orderly runs\<close>

lemma justified_tail: "justified p (x # xs) \<Longrightarrow> justified (Some x) xs"
  by (cases x) simp_all

lemma justified_position:
  "justified p evs \<Longrightarrow> evs = pre @ Reported who error # post \<Longrightarrow>
   (pre = [] \<and> p = Some (Settled (Inl error))) \<or> (\<exists>pre'. pre = pre' @ [Settled (Inl error)])"
proof (induction evs arbitrary: p pre)
  case Nil
  then show ?case by simp
next
  case (Cons x xs)
  show ?case
  proof (cases pre)
    case Nil
    with Cons.prems show ?thesis by simp
  next
    case (Cons y pre2)
    with Cons.prems have x: "x = y" and xs: "xs = pre2 @ Reported who error # post" by simp_all
    from Cons.IH [OF justified_tail [OF Cons.prems(1)] xs]
    have "(pre2 = [] \<and> x = Settled (Inl error)) \<or> (\<exists>pre'. pre2 = pre' @ [Settled (Inl error)])"
      by simp
    then show ?thesis
    proof
      assume "pre2 = [] \<and> x = Settled (Inl error)"
      with Cons x have "pre = [] @ [Settled (Inl error)]" by simp
      then show ?thesis by blast
    next
      assume "\<exists>pre'. pre2 = pre' @ [Settled (Inl error)]"
      then obtain pre' where "pre2 = pre' @ [Settled (Inl error)]" by blast
      with Cons have "pre = (y # pre') @ [Settled (Inl error)]" by simp
      then show ?thesis by blast
    qed
  qed
qed

lemma justified_explained: "justified None evs \<Longrightarrow> explained evs"
  unfolding explained_def using justified_position [of None evs] by blast

lemma justified_External:
  "\<not> isReport ev \<Longrightarrow> justified p (map External as @ ev # rest) = justified (Some ev) rest"
proof (induction as arbitrary: p)
  case Nil
  then show ?case by (cases ev) simp_all
next
  case (Cons a as)
  then show ?case by simp
qed

lemma justified_quiet:
  "list_all quietEvent pre \<Longrightarrow> \<not> isReport ev \<Longrightarrow>
   justified p (pre @ ev # rest) = justified (Some ev) rest"
proof (induction pre arbitrary: p)
  case Nil
  then show ?case by (cases ev) simp_all
next
  case (Cons x pre)
  from Cons.prems(1) have "\<not> isReport x" by (cases x rule: quietEvent.cases) simp_all
  then have "justified p (x # (pre @ ev # rest)) = justified (Some x) (pre @ ev # rest)"
    by (cases x) simp_all
  with Cons show ?case by simp
qed

lemma explained_assertion: "explained [Reported ''DevToolsUtils.assert'' message]"
  by (auto simp: explained_def Cons_eq_append_conv)

lemma explained_Nil: "explained []"
  by (simp add: explained_def)

lemma explained_prefix:
  assumes "\<forall>who error. Reported who error \<notin> set xs" and "explained ys"
  shows "explained (xs @ ys)"
  unfolding explained_def
proof (intro allI impI)
  fix pre who error post
  assume eq: "xs @ ys = pre @ Reported who error # post"
  then obtain us where
    "(xs = pre @ us \<and> us @ ys = Reported who error # post) \<or>
     (xs @ us = pre \<and> ys = us @ Reported who error # post)"
    by (auto simp: append_eq_append_conv2)
  then show "(\<exists>pre'. pre = pre' @ [Settled (Inl error)]) \<or>
         (who = ''DevToolsUtils.assert'' \<and> post = [])"
  proof
    assume a: "xs = pre @ us \<and> us @ ys = Reported who error # post"
    show ?thesis
    proof (cases us)
      case Nil
      with a have "ys = [] @ Reported who error # post" by simp
      with assms(2) have "(\<exists>pre'. [] = pre' @ [Settled (Inl error)]) \<or>
         (who = ''DevToolsUtils.assert'' \<and> post = [])"
        unfolding explained_def by blast
      then show ?thesis by simp
    next
      case (Cons u us')
      with a have "Reported who error \<in> set xs" by simp
      with assms(1) show ?thesis by blast
    qed
  next
    assume a: "xs @ us = pre \<and> ys = us @ Reported who error # post"
    with assms(2) have "(\<exists>pre'. us = pre' @ [Settled (Inl error)]) \<or>
         (who = ''DevToolsUtils.assert'' \<and> post = [])"
      unfolding explained_def by blast
    then show ?thesis
    proof
      assume "\<exists>pre'. us = pre' @ [Settled (Inl error)]"
      then obtain pre' where "us = pre' @ [Settled (Inl error)]" by blast
      with a have "pre = (xs @ pre') @ [Settled (Inl error)]" by simp
      then show ?thesis by blast
    next
      assume "who = ''DevToolsUtils.assert'' \<and> post = []"
      then show ?thesis by simp
    qed
  qed
qed

lemma orderly_emitted: "orderly e w w' evs \<Longrightarrow> emitted w w' = evs"
  by (simp add: orderly_def)

lemma orderly_refl: "orderly e w w []"
  by (simp add: orderly_def explained_Nil)

lemma orderly_prefix:
  "orderly e w w1 evs1 \<Longrightarrow> \<forall>who error. Reported who error \<notin> set evs1 \<Longrightarrow>
   orderly e w1 w2 evs2 \<Longrightarrow> orderly e w w2 (evs1 @ evs2)"
  by (simp add: orderly_def explained_prefix)

lemma orderly_dispatch: "orderly e w (dispatch e a w) [Dispatched a]"
  by (simp add: orderly_def dispatch_def justified_explained)

lemma orderly_dispatchTask: "orderly e w (dispatchTask t w) [DispatchedTask t]"
  by (simp add: orderly_def dispatchTask_def justified_explained)

lemma orderly_assertion:
  "orderly e w (reportException ''DevToolsUtils.assert'' message w)
     [Reported ''DevToolsUtils.assert'' message]"
  by (simp add: orderly_def reportException_def explained_assertion)

lemma takeSnapshot_justified:
  "\<exists>evs. trace (snd (takeSnapshot e w)) = trace w @ evs \<and>
         store (snd (takeSnapshot e w)) = applyAll e (actionsOf evs) (store w) \<and>
         justified None evs \<and> tasksOf evs = []"
  by (auto simp: takeSnapshot_def dispatch_def remote_def reportException_def
        Let_def selectSnapshot_def toggleDiffing_def justified_External
        split: list.splits sum.splits)

lemma takeSnapshot_orderly:
  "\<exists>evs. orderly e w (snd (takeSnapshot e w)) evs \<and> tasksOf evs = []"
  using takeSnapshot_justified [of e w] justified_explained
  by (auto simp: orderly_def)

lemma readSnapshot_orderly:
  "\<exists>evs. orderly e w (snd (readSnapshot e i w)) evs \<and> tasksOf evs = []"
proof -
  have "(\<exists>message. snd (readSnapshot e i w) = reportException ''DevToolsUtils.assert'' message w) \<or>
        (\<exists>evs. trace (snd (readSnapshot e i w)) = trace w @ evs \<and>
           store (snd (readSnapshot e i w)) = applyAll e (actionsOf evs) (store w) \<and>
           justified None evs \<and> tasksOf evs = [])"
    by (auto simp: readSnapshot_def failedAssertion_def noSnapshot_def dispatch_def remote_def
          reportException_def Let_def justified_External
          split: list.splits sum.splits option.splits)
  then show ?thesis
  proof
    assume "\<exists>message. snd (readSnapshot e i w) = reportException ''DevToolsUtils.assert'' message w"
    then obtain message where
      "snd (readSnapshot e i w) = reportException ''DevToolsUtils.assert'' message w" by blast
    with orderly_assertion [of e w message]
    have "orderly e w (snd (readSnapshot e i w)) [Reported ''DevToolsUtils.assert'' message] \<and>
          tasksOf [Reported ''DevToolsUtils.assert'' message] = []"
      by simp
    then show ?thesis by blast
  next
    assume "\<exists>evs. trace (snd (readSnapshot e i w)) = trace w @ evs \<and>
           store (snd (readSnapshot e i w)) = applyAll e (actionsOf evs) (store w) \<and>
           justified None evs \<and> tasksOf evs = []"
    then show ?thesis
      using justified_explained by (auto simp: orderly_def)
  qed
qed

lemma censusRun_orderly:
  assumes "censusRun e i s st out evs"
  shows "tasksOf evs = [] \<and> justified None evs"
proof -
  from assms obtain pre ivt f b ext where q: "list_all quietEvent pre"
    and c: "(out = Suspended \<and> ext = [] \<and> evs = pre @ [Dispatched (TAKE_CENSUS_START i ivt f b),
                           Called (TakeCensus (path s) b (censusOptions ivt f))] @
                    map External ext) \<or>
            (\<exists>error. out = Returned () \<and>
               evs = (pre @ [Dispatched (TAKE_CENSUS_START i ivt f b),
                           Called (TakeCensus (path s) b (censusOptions ivt f))] @
                    map External ext) @ [Settled (Inl error), Reported ''takeCensus'' error,
                             Dispatched (SNAPSHOT_ERROR i error)]) \<or>
            (\<exists>report'. out = Returned () \<and>
               evs = (pre @ [Dispatched (TAKE_CENSUS_START i ivt f b),
                           Called (TakeCensus (path s) b (censusOptions ivt f))] @
                    map External ext) @ [Settled (Inr report'),
                             Dispatched (TAKE_CENSUS_END i b ivt f report')])"
    unfolding censusRun_def Let_def by blast
  from c show ?thesis
    using quiet_no_task [OF q] by (auto simp: justified_quiet [OF q] justified_External)
qed

lemma takeCensus_orderly:
  "\<exists>evs. orderly e w (snd (takeCensus e i w)) evs \<and> tasksOf evs = []"
proof -
  obtain out w' where run: "takeCensus e i w = (out, w')" by (cases "takeCensus e i w")
  from takeCensus_cases [OF run]
  consider "w' = w" | message where "w' = reportException ''DevToolsUtils.assert'' message w"
    | s evs where "trace w' = trace w @ evs"
        "store w' = applyAll e (actionsOf evs) (store w)" "censusRun e i s (store w) out evs"
    by blast
  then show ?thesis
  proof cases
    case 1
    with run have "orderly e w (snd (takeCensus e i w)) [] \<and> tasksOf [] = []"
      by (simp add: orderly_refl)
    then show ?thesis by blast
  next
    case 2
    with run orderly_assertion [of e w message]
    have "orderly e w (snd (takeCensus e i w)) [Reported ''DevToolsUtils.assert'' message] \<and>
          tasksOf [Reported ''DevToolsUtils.assert'' message] = []"
      by simp
    then show ?thesis by blast
  next
    case 3
    with run censusRun_orderly [of e i s "store w" out evs] justified_explained [of evs]
    have "orderly e w (snd (takeCensus e i w)) evs \<and> tasksOf evs = []"
      by (simp add: orderly_def)
    then show ?thesis by blast
  qed
qed

subsection \<open>The loop and its specification\<close>

lemma censusLoop_turns:
  "censusLoop e i s w = (out, w') \<Longrightarrow>
   censusTurns e i s (store w) (script w) (emitted w w') out"
proof (induction rs \<equiv> "script w" arbitrary: w)
  case Nil
  then have sc: "script w = []" by simp
  with Nil.prems have "out = Suspended"
    "trace w' = trace w @ [Dispatched (censusStart i w), Called (censusCall s w)]"
    using censusLoop_Nil [of w e i s] by auto
  then show ?case
    using censusTurns.pending [of e i s "store w"] sc
    by (simp add: censusStart_def censusCall_def)
next
  case (Cons r rs)
  let ?w2 = "afterCensusCall e i s r rs w"
  let ?first = "[Dispatched (censusStart i w), Called (censusCall s w)] @
              map External (during r) @ [Settled (result r)]"
  have sc: "script w = r # rs" using Cons.hyps(2) by simp
  have tr2: "trace ?w2 = trace w @ ?first" by (simp add: afterCensusCall_def)
  have st2: "store ?w2 = applyAll e (during r) (reducer e (censusStart i w) (store w))"
    by (simp add: afterCensusCall_def)
  have sc2: "script ?w2 = rs" by (simp add: afterCensusCall_def)
  show ?case
  proof (cases "result r")
    case (Inl error)
    with Cons.prems sc have "out = Returned ()"
      "w' = dispatch e (SNAPSHOT_ERROR i error) (reportException ''takeCensus'' error ?w2)"
      using censusLoop_Cons [of w r rs e i s] by simp_all
    with tr2 Inl sc show ?thesis
      using censusTurns.failed [of r error e i s "store w" rs]
      by (simp add: dispatch_def reportException_def censusStart_def censusCall_def)
  next
    case (Inr report')
    show ?thesis
    proof (cases "mismatch e w ?w2")
      case True
      with Cons.prems sc Inr have run2: "censusLoop e i s ?w2 = (out, w')"
        using censusLoop_Cons [of w r rs e i s] by simp
      moreover have "rs = script ?w2" by (simp add: afterCensusCall_def)
      ultimately have ih: "censusTurns e i s (store ?w2) (script ?w2) (emitted ?w2 w') out"
        using Cons.hyps(1) [of ?w2] by blast
      obtain evs where evs: "trace w' = trace ?w2 @ evs"
        using censusLoop_run [OF run2] by blast
      from True have mm: "inverted (store ?w2) \<noteq> inverted (store w) \<or>
          filter' (store ?w2) \<noteq> filter' (store w) \<or>
          \<not> breakdownEquals e (breakdown (store w)) (breakdown (store ?w2))"
        by (auto simp: mismatch_def)
      from ih evs sc2 have "censusTurns e i s (store ?w2) rs evs out" by simp
      with mm st2 Inr have "censusTurns e i s (store w) (r # rs)
         ([Dispatched (TAKE_CENSUS_START i (inverted (store w)) (filter' (store w)) (breakdown (store w))),
           Called (TakeCensus (path s) (breakdown (store w))
              (censusOptions (inverted (store w)) (filter' (store w))))] @
          map External (during r) @ [Settled (Inr report')] @ evs) out"
        using censusTurns.again [of r report' "store ?w2" e i "store w" s rs evs out]
        by (simp add: censusStart_def)
      with evs tr2 Inr sc show ?thesis
        by (simp add: censusStart_def censusCall_def)
    next
      case False
      with Cons.prems sc Inr have "out = Returned ()"
        "w' = dispatch e (TAKE_CENSUS_END i (breakdown (store w)) (inverted (store w))
                     (filter' (store w)) report') ?w2"
        using censusLoop_Cons [of w r rs e i s] by simp_all
      moreover from False have "inverted (store ?w2) = inverted (store w)"
        "filter' (store ?w2) = filter' (store w)"
        "breakdownEquals e (breakdown (store w)) (breakdown (store ?w2))"
        by (auto simp: mismatch_def)
      ultimately show ?thesis
        using tr2 st2 Inr sc
          censusTurns.current [of r report' "store ?w2" e i "store w" s rs]
        by (simp add: dispatch_def censusStart_def censusCall_def)
    qed
  qed
qed

subsection \<open>How a census ends\<close>

lemma censusRun_end:
  assumes "censusRun e i s st out evs"
    and "Dispatched (TAKE_CENSUS_END j b ivt f report') \<in> set evs"
  shows "j = i \<and> out = Returned () \<and> endsCensus e i s st b ivt f report' evs"
proof -
  from assms(1) obtain pre iv' f' b' ext where q: "list_all quietEvent pre"
    and c: "(out = Suspended \<and> ext = [] \<and> evs = pre @ [Dispatched (TAKE_CENSUS_START i iv' f' b'),
                           Called (TakeCensus (path s) b' (censusOptions iv' f'))] @
                    map External ext) \<or>
            (\<exists>error. out = Returned () \<and>
               evs = (pre @ [Dispatched (TAKE_CENSUS_START i iv' f' b'),
                           Called (TakeCensus (path s) b' (censusOptions iv' f'))] @
                    map External ext) @ [Settled (Inl error), Reported ''takeCensus'' error,
                             Dispatched (SNAPSHOT_ERROR i error)]) \<or>
            (\<exists>report'. out = Returned () \<and>
               evs = (pre @ [Dispatched (TAKE_CENSUS_START i iv' f' b'),
                           Called (TakeCensus (path s) b' (censusOptions iv' f'))] @
                    map External ext) @ [Settled (Inr report'),
                             Dispatched (TAKE_CENSUS_END i b' iv' f' report')] \<and>
               inverted (applyAll e (actionsOf (pre @ [Dispatched (TAKE_CENSUS_START i iv' f' b'),
                           Called (TakeCensus (path s) b' (censusOptions iv' f'))] @
                    map External ext)) st) = iv' \<and>
               filter' (applyAll e (actionsOf (pre @ [Dispatched (TAKE_CENSUS_START i iv' f' b'),
                           Called (TakeCensus (path s) b' (censusOptions iv' f'))] @
                    map External ext)) st) = f' \<and>
               breakdownEquals e b' (breakdown (applyAll e (actionsOf (pre @ [Dispatched (TAKE_CENSUS_START i iv' f' b'),
                           Called (TakeCensus (path s) b' (censusOptions iv' f'))] @
                    map External ext)) st)))"
    unfolding censusRun_def Let_def by blast
  let ?turn = "pre @ [Dispatched (TAKE_CENSUS_START i iv' f' b'),
                           Called (TakeCensus (path s) b' (censusOptions iv' f'))] @
                    map External ext"
  have ne: "Dispatched (TAKE_CENSUS_END j b ivt f report') \<notin> set ?turn"
    using quiet_no_end [OF q] by auto
  from c assms(2) ne obtain report2 where out: "out = Returned ()"
    and evs: "evs = ?turn @ [Settled (Inr report2), Dispatched (TAKE_CENSUS_END i b' iv' f' report2)]"
    and m: "inverted (applyAll e (actionsOf ?turn) st) = iv'"
       "filter' (applyAll e (actionsOf ?turn) st) = f'"
       "breakdownEquals e b' (breakdown (applyAll e (actionsOf ?turn) st))"
    by auto
  from evs assms(2) ne have same: "j = i" "b = b'" "ivt = iv'" "f = f'" "report' = report2"
    by auto
  have bl: "actionsOf (butlast evs) = actionsOf ?turn"
    by (simp add: evs butlast_append)
  have "endsCensus e i s st b ivt f report' evs"
    unfolding endsCensus_def
    apply (rule exI [of _ pre])
    apply (rule exI [of _ ext])
    using q m same
    apply (simp only: bl)
    apply (simp add: evs)
    done
  with out same show ?thesis by simp
qed

lemma censusRun_returned:
  assumes "censusRun e i s st (Returned ()) evs" and "\<forall>x. Settled (Inl x) \<notin> set evs"
  shows "\<exists>b ivt f report'. Dispatched (TAKE_CENSUS_END i b ivt f report') \<in> set evs"
proof -
  from assms obtain pre ivt f b ext report' where
    "evs = (pre @ [Dispatched (TAKE_CENSUS_START i ivt f b),
                   Called (TakeCensus (path s) b (censusOptions ivt f))] @
            map External ext) @
           [Settled (Inr report'), Dispatched (TAKE_CENSUS_END i b ivt f report')]"
    unfolding censusRun_def Let_def by fastforce
  then have "Dispatched (TAKE_CENSUS_END i b ivt f report') \<in> set evs" by simp
  then show ?thesis by blast
qed

lemma endsCensus_attached:
  "endsCensus e i s st b ivt f report' evs \<Longrightarrow>
   attachedAfter (TakeCensus (path s) b (censusOptions ivt f)) report'
     (TAKE_CENSUS_END i b ivt f report') evs"
  unfolding endsCensus_def attachedAfter_def
  by (metis append.assoc append_Cons append_Nil)

subsection \<open>The payloads of the end actions\<close>

lemma attachedAfterI:
  "evs = pre @ [Called c] @ map External ext @ [Settled (Inr v), Dispatched a] \<Longrightarrow>
   attachedAfter c v a evs"
  unfolding attachedAfter_def by blast

lemma takeSnapshot_end_iff:
  "(Dispatched (TAKE_SNAPSHOT_END j p) \<in> set (emitted w (snd (takeSnapshot e w)))) =
      (j = id' (createSnapshot e) \<and> (\<exists>r rs. script w = r # rs \<and> result r = Inr p))"
  by (auto simp: takeSnapshot_def emitted_def dispatch_def remote_def reportException_def
        Let_def selectSnapshot_def toggleDiffing_def split: list.splits sum.splits)

lemma takeSnapshot_resolved:
  "script w = r # rs \<Longrightarrow> result r = Inr p \<Longrightarrow>
   emitted w (snd (takeSnapshot e w)) =
     ((if diffing (store w) then [Dispatched toggleDiffing] else []) @
      [Dispatched (TAKE_SNAPSHOT_START (createSnapshot e)),
       Dispatched (SELECT_SNAPSHOT (id' (createSnapshot e)))]) @
     [Called SaveHeapSnapshot] @ map External (during r) @
     [Settled (Inr p), Dispatched (TAKE_SNAPSHOT_END (id' (createSnapshot e)) p)]"
  by (simp add: takeSnapshot_def emitted_def dispatch_def remote_def reportException_def
        Let_def selectSnapshot_def toggleDiffing_def)

lemma readSnapshot_end_iff:
  "getSnapshot (store w) i = Some s \<Longrightarrow> assertions e \<longrightarrow> state s \<in> {SAVED, IMPORTING} \<Longrightarrow>
   (Dispatched (READ_SNAPSHOT_END j t) \<in> set (emitted w (snd (readSnapshot e i w)))) =
      (j = i \<and> (\<exists>r1 r2 rs v. script w = r1 # r2 # rs \<and> result r1 = Inr v \<and>
                  result r2 = Inr t))"
  by (auto simp: readSnapshot_def failedAssertion_def noSnapshot_def emitted_def dispatch_def remote_def reportException_def
        Let_def split: list.splits sum.splits)

lemma readSnapshot_end_only:
  "Dispatched (READ_SNAPSHOT_END j t) \<in> set (emitted w (snd (readSnapshot e i w))) \<Longrightarrow>
   \<exists>s r1 r2 rs v. getSnapshot (store w) i = Some s \<and>
      (assertions e \<longrightarrow> state s \<in> {SAVED, IMPORTING}) \<and> j = i \<and>
      script w = r1 # r2 # rs \<and> result r1 = Inr v \<and> result r2 = Inr t"
  by (auto simp: readSnapshot_def failedAssertion_def noSnapshot_def emitted_def dispatch_def remote_def reportException_def
        Let_def split: list.splits sum.splits if_splits option.splits)

lemma readSnapshot_resolved:
  "getSnapshot (store w) i = Some s \<Longrightarrow> assertions e \<longrightarrow> state s \<in> {SAVED, IMPORTING} \<Longrightarrow>
   script w = r1 # r2 # rs \<Longrightarrow> result r1 = Inr v \<Longrightarrow> result r2 = Inr t \<Longrightarrow>
   emitted w (snd (readSnapshot e i w)) =
     ([Dispatched (READ_SNAPSHOT_START i), Called (ReadHeapSnapshot (path s))] @
      map External (during r1) @ [Settled (Inr v)]) @
     [Called (GetCreationTime (path s))] @ map External (during r2) @
     [Settled (Inr t), Dispatched (READ_SNAPSHOT_END i t)]"
  by (auto simp: readSnapshot_def failedAssertion_def noSnapshot_def emitted_def dispatch_def remote_def reportException_def
        Let_def)

subsection \<open>The tasks that dispatch \<open>takeCensus\<close>\<close>

lemma refreshSelectedCensus_orderly:
  "\<exists>evs. orderly e w (snd (refreshSelectedCensus e w)) evs"
proof -
  have "\<And>j. \<exists>evs. orderly e w (snd (takeCensus e j (dispatchTask (TakeCensusOf j) w))) evs"
    using orderly_prefix [OF orderly_dispatchTask] takeCensus_orderly by fastforce
  then show ?thesis
    using orderly_refl [of e w]
    by (auto simp: refreshSelectedCensus_def split: option.splits)
qed

lemma selectSnapshotAndRefresh_orderly:
  "\<exists>evs. orderly e w (snd (selectSnapshotAndRefresh e i w)) evs"
proof -
  let ?w1 = "if diffing (store w) then dispatch e toggleDiffing w else w"
  let ?w2 = "dispatch e (selectSnapshot i) ?w1"
  let ?w3 = "dispatchTask RefreshSelectedCensus ?w2"
  let ?pre = "(if diffing (store w) then [Dispatched toggleDiffing] else []) @
              [Dispatched (selectSnapshot i), DispatchedTask RefreshSelectedCensus]"
  have p: "orderly e w ?w3 ?pre"
    by (simp add: orderly_def dispatch_def dispatchTask_def justified_explained)
  have n: "\<forall>who error. Reported who error \<notin> set ?pre" by simp
  obtain evs where "orderly e ?w3 (snd (refreshSelectedCensus e ?w3)) evs"
    using refreshSelectedCensus_orderly by blast
  from orderly_prefix [OF p n this]
  show ?thesis
    by (auto simp: selectSnapshotAndRefresh_def Let_def)
qed

lemma orderly_is_emitted: "\<exists>evs. orderly e w w' evs \<Longrightarrow> orderly e w w' (emitted w w')"
  using orderly_emitted by blast

subsection \<open>The controller: its trace and its listeners\<close>

lemma quietly_refl: "quietly c c"
  by (simp add: quietly_def)

lemma quietly_trans: "quietly c c1 \<Longrightarrow> quietly c1 c2 \<Longrightarrow> quietly c c2"
  by (auto simp: quietly_def)

lemma quietly_grows: "quietly c c' \<Longrightarrow> grows c c'"
  by (auto simp: quietly_def grows_def)

lemma grows_refl: "grows c c"
  by (simp add: grows_def)

lemma grows_trans: "grows c c1 \<Longrightarrow> grows c1 c2 \<Longrightarrow> grows c c2"
  by (auto simp: grows_def)

lemma quietly_logEvent: "\<not> isRefresh ev \<Longrightarrow> quietly c (logEvent ev c)"
  by (simp add: quietly_def logEvent_def)

lemma quietly_await: "\<not> isRefresh (ACalled call) \<Longrightarrow> quietly c (snd (await call c))"
  by (auto simp: quietly_def await_def logEvent_def split: list.splits)

lemma grows_await: "grows c (snd (await call c))"
  by (auto simp: grows_def await_def logEvent_def split: list.splits)

lemma quietly_fields:
  "quietly c c' \<Longrightarrow> quietly c (c'\<lparr>animationPlayers := ps\<rparr>)"
  by (simp add: quietly_def)

lemma grows_fields:
  "grows c c' \<Longrightarrow> grows c (c'\<lparr>animationPlayers := ps\<rparr>)"
  "grows c c' \<Longrightarrow> grows c (c'\<lparr>nodeFront := n\<rparr>)"
  "grows c c' \<Longrightarrow> grows c (c'\<lparr>isListeningToMutations := b\<rparr>)"
  by (simp_all add: grows_def)

lemma quietly_releaseAll: "quietly c (snd (releaseAll fronts c))"
proof (induction fronts arbitrary: c)
  case Nil
  show ?case by (simp add: quietly_refl)
next
  case (Cons front fronts)
  have a: "quietly c (snd (await (Release front) c))"
    by (simp add: quietly_await)
  show ?case
    using a quietly_trans [OF a Cons.IH [of "snd (await (Release front) c)"]]
    by (auto split: prod.splits option.splits sum.splits)
qed

lemma quietly_destroyAnimationPlayers: "quietly c (snd (destroyAnimationPlayers c))"
proof -
  let ?c1 = "snd (if hasMutationEvents c then await StopAnimationPlayerUpdates c
            else (Some (Inr []), c))"
  have a: "quietly c ?c1"
    by (simp add: quietly_await quietly_refl)
  have b: "quietly c (snd (releaseAll (animationPlayers ?c1) ?c1))"
    using quietly_trans [OF a quietly_releaseAll] .
  show ?thesis
    using a b quietly_fields [OF b]
    by (auto simp: destroyAnimationPlayers_def split: prod.splits option.splits sum.splits
          outcome.splits if_splits)
qed

lemma quietly_mutationsLoop: "quietly c (snd (mutationsLoop changes c))"
proof (induction changes arbitrary: c)
  case Nil
  show ?case by (simp add: quietly_refl)
next
  case (Cons change changes)
  obtain type player where ch: "change = (type, player)" by (cases change)
  let ?c1 = "if type = ''added''
                then c\<lparr>animationPlayers := animationPlayers c @ [player]\<rparr> else c"
  have q1: "quietly c ?c1" by (simp add: quietly_def)
  show ?case
  proof (cases "type = ''removed''")
    case False
    with quietly_trans [OF q1 Cons.IH [of ?c1]] ch show ?thesis
      by (simp add: Let_def)
  next
    case True
    then have c1: "?c1 = c" by simp
    obtain r c2 where aw: "await (Release player) c = (r, c2)"
      by (cases "await (Release player) c")
    have q2: "quietly c c2" using quietly_await [of "Release player" c] aw by simp
    let ?c3 = "c2\<lparr>animationPlayers :=
                  splice1 (indexOf (animationPlayers c2) player) (animationPlayers c2)\<rparr>"
    have q3: "quietly c ?c3" using q2 by (simp add: quietly_def)
    have q4: "quietly c (snd (mutationsLoop changes ?c3))"
      using quietly_trans [OF q3 Cons.IH [of ?c3]] .
    from True ch aw q2 q4 show ?thesis
      by (auto simp: Let_def split: option.splits sum.splits)
  qed
qed

lemma quietly_onAnimationMutations: "quietly c (snd (onAnimationMutations changes c))"
  using quietly_mutationsLoop [of c changes]
    quietly_trans [OF quietly_mutationsLoop [of c changes] quietly_logEvent]
  by (auto simp: onAnimationMutations_def split: prod.splits outcome.splits)

lemma grows_on: "(em, name, h) \<in> allowedListeners \<Longrightarrow> grows c (on em name h c)"
  by (auto simp: grows_def on_def logEvent_def)

lemma grows_logEvent: "grows c (logEvent ev c)"
  by (simp add: grows_def logEvent_def)

lemma grows_refreshAnimationPlayers: "grows c (snd (refreshAnimationPlayers n c))"
proof -
  let ?c1 = "snd (destroyAnimationPlayers c)"
  let ?c2 = "snd (await (GetAnimationPlayersForNode n) ?c1)"
  have g1: "grows c ?c1"
    using quietly_destroyAnimationPlayers by (rule quietly_grows)
  have g2: "grows c ?c2"
    using grows_trans [OF g1 grows_await] .
  have m: "(AnimationsFront, ''mutations'', OnAnimationMutations) \<in> allowedListeners"
    by (simp add: allowedListeners_def)
  have g3: "\<And>ps. grows c (?c2\<lparr>animationPlayers := ps\<rparr>)"
    using g2 by (rule grows_fields)
  have g4: "\<And>ps. grows c ((on AnimationsFront ''mutations'' OnAnimationMutations
                (?c2\<lparr>animationPlayers := ps\<rparr>))\<lparr>isListeningToMutations := True\<rparr>)"
    using grows_trans [OF g3 grows_on [OF m]] by (rule grows_fields)
  show ?thesis
    using g1 g2 g3 g4
    by (auto simp: refreshAnimationPlayers_def Let_def
          split: prod.splits option.splits sum.splits outcome.splits)
qed

lemma grows_onNewNodeFront: "grows c (snd (onNewNodeFront h c))"
proof -
  let ?c1 = "logEvent (Updating ''animationscontroller'') c"
  let ?c2 = "?c1\<lparr>nodeFront := selectionNodeFront h\<rparr>"
  have g1: "grows c ?c1" by (rule grows_logEvent)
  have d: "grows c (snd (destroyAnimationPlayers ?c1))"
    using grows_trans [OF g1 quietly_grows [OF quietly_destroyAnimationPlayers]] .
  have d': "\<And>x. grows c (logEvent Done (logEvent x (snd (destroyAnimationPlayers ?c1))))"
    using grows_trans [OF grows_trans [OF d grows_logEvent] grows_logEvent] .
  have g2: "grows c ?c2" using g1 by (rule grows_fields)
  have r: "grows c (snd (refreshAnimationPlayers (selectionNodeFront h) ?c2))"
    using grows_trans [OF g2 grows_refreshAnimationPlayers] .
  have r': "\<And>x. grows c (logEvent Done (logEvent x
               (snd (refreshAnimationPlayers (selectionNodeFront h) ?c2))))"
    using grows_trans [OF grows_trans [OF r grows_logEvent] grows_logEvent] .
  show ?thesis
    using d d' r r' grows_refl [of c]
    by (auto simp: onNewNodeFront_def Let_def split: prod.splits outcome.splits)
qed

lemma grows_runHandler: "grows c (runHandler h changes x c)"
  using grows_onNewNodeFront [of c h] quietly_grows [OF quietly_onAnimationMutations [of c changes]]
    grows_refl [of c]
  by (cases x) (auto simp: onPanelVisibilityChange_def)

lemma grows_fold: "grows c (fold (runHandler h changes) hs c)"
proof (induction hs arbitrary: c)
  case Nil
  show ?case by (simp add: grows_refl)
next
  case (Cons x hs)
  show ?case
    using grows_trans [OF grows_runHandler Cons.IH] by simp
qed

lemma quietly_fold:
  "\<forall>x \<in> set hs. x = OnAnimationMutations \<Longrightarrow> quietly c (fold (runHandler h changes) hs c)"
proof (induction hs arbitrary: c)
  case Nil
  show ?case by (simp add: quietly_refl)
next
  case (Cons x hs)
  then have x: "x = OnAnimationMutations" and rest: "\<forall>x \<in> set hs. x = OnAnimationMutations"
    by simp_all
  have "quietly c (runHandler h changes x c)"
    using x quietly_onAnimationMutations by simp
  from quietly_trans [OF this Cons.IH [OF rest]] show ?case by simp
qed

lemma quietly_not_refreshed: "quietly c c' \<Longrightarrow> \<not> refreshed c c'"
  by (auto simp: quietly_def refreshed_def)

lemma startListeners_allowed:
  "registered c = [] \<Longrightarrow> set (registered (startListeners c)) \<subseteq> allowedListeners"
  by (simp add: startListeners_def on_def logEvent_def allowedListeners_def)

lemma reachable_allowed: "reachable c \<Longrightarrow> set (registered c) \<subseteq> allowedListeners"
proof (induction rule: reachable.induct)
  case (started c)
  then show ?case by (simp add: startListeners_allowed)
next
  case (fired c h em name changes)
  then show ?case
    using grows_fold [of c h changes "handlersFor em name c"]
    by (auto simp: fire_def grows_def)
next
  case (called c h)
  then show ?case
    using grows_onNewNodeFront [of c h] by (auto simp: grows_def)
next
  case (stopped c)
  then show ?case
    by (auto simp: stopListeners_def off_def logEvent_def Let_def)
qed

subsection \<open>\<open>indexOf\<close> and \<open>splice\<close>\<close>

lemma indexOf_range: "indexOf xs p = -1 \<or> (0 \<le> indexOf xs p \<and> indexOf xs p < int (length xs))"
  by (induction xs) (auto simp: Let_def)

lemma indexOf_absent: "(indexOf xs p = -1) = (p \<notin> set xs)"
proof (induction xs)
  case Nil
  show ?case by simp
next
  case (Cons x xs)
  with indexOf_range [of xs p] show ?case
    by (auto simp: Let_def)
qed

lemma splice1_Cons:
  "0 \<le> k \<Longrightarrow> splice1 (k + 1) (x # xs) = x # splice1 k xs"
  by (auto simp: splice1_def Let_def nat_add_distrib min_def)

lemma splice1_indexOf:
  "splice1 (indexOf xs p) xs = (if p \<in> set xs then remove1 p xs else butlast xs)"
proof (cases "p \<in> set xs")
  case False
  then have "indexOf xs p = -1" by (simp add: indexOf_absent)
  moreover have "nat (max (int (length xs) - 1) 0) = length xs - 1" by simp
  ultimately show ?thesis
    using False by (simp add: splice1_def Let_def butlast_conv_take)
next
  case True
  then have "splice1 (indexOf xs p) xs = remove1 p xs"
  proof (induction xs)
    case Nil
    then show ?case by simp
  next
    case (Cons x xs)
    show ?case
    proof (cases "x = p")
      case True
      then show ?thesis by (simp add: splice1_def)
    next
      case False
      with Cons.prems have m: "p \<in> set xs" by simp
      then have "indexOf xs p \<noteq> -1" by (simp add: indexOf_absent)
      with indexOf_range [of xs p] have k: "0 \<le> indexOf xs p" by auto
      with False Cons.IH [OF m] show ?thesis
        by (simp add: Let_def splice1_Cons)
    qed
  qed
  with True show ?thesis by simp
qed

subsection \<open>The list of players when the calls resolve\<close>

text \<open>
  \<open>destroyAnimationPlayers\<close> releases the fronts of the list, each once and in order,
  and leaves the list empty; \<open>refreshAnimationPlayers\<close> does the same and then holds
  the players that the front returned; an \<open>added\<close> change appends its player, and a
  \<open>removed\<close> change of a player of the list releases it and removes its first
  occurrence.
\<close>

lemma releasesOf_append [simp]: "releasesOf (xs @ ys) = releasesOf xs @ releasesOf ys"
  by (induction xs rule: releasesOf.induct) simp_all

lemma releaseAll_returned:
  "releaseAll fronts c = (Returned u, c') \<Longrightarrow>
   animationPlayers c' = animationPlayers c \<and>
   (\<exists>evs. atrace c' = atrace c @ evs \<and> releasesOf evs = fronts)"
proof (induction fronts arbitrary: c)
  case Nil
  then show ?case by simp
next
  case (Cons front fronts)
  obtain r c1 where aw: "await (Release front) c = (r, c1)"
    by (cases "await (Release front) c")
  with Cons.prems obtain v where r: "r = Some (Inr v)"
    and rest: "releaseAll fronts c1 = (Returned u, c')"
    by (auto split: option.splits sum.splits)
  from aw r have c1: "animationPlayers c1 = animationPlayers c"
    "atrace c1 = atrace c @ [ACalled (Release front), ASettled (Inr v)]"
    by (auto simp: await_def logEvent_def split: list.splits)
  from Cons.IH [OF rest] c1 show ?case by auto
qed

lemma destroyAnimationPlayers_returned:
  assumes "destroyAnimationPlayers c = (Returned u, c')"
  shows "animationPlayers c' = [] \<and>
         (\<exists>evs. atrace c' = atrace c @ evs \<and> releasesOf evs = animationPlayers c)"
proof -
  obtain r c1 where st: "(if hasMutationEvents c then await StopAnimationPlayerUpdates c
            else (Some (Inr []), c)) = (r, c1)"
    by (cases "if hasMutationEvents c then await StopAnimationPlayerUpdates c
            else (Some (Inr []), c)")
  obtain o2 c2 where ra': "releaseAll (animationPlayers c1) c1 = (o2, c2)"
    by (cases "releaseAll (animationPlayers c1) c1")
  from assms st ra' obtain v where r: "r = Some (Inr v)"
    by (auto simp: destroyAnimationPlayers_def split: option.splits sum.splits)
  from assms st ra' r obtain u' where o2: "o2 = Returned u'"
    and c': "c' = c2\<lparr>animationPlayers := []\<rparr>"
    by (auto simp: destroyAnimationPlayers_def split: outcome.splits)
  from ra' o2 have ra: "releaseAll (animationPlayers c1) c1 = (Returned u', c2)" by simp
  from st r have c1: "animationPlayers c1 = animationPlayers c"
    "\<exists>evs. atrace c1 = atrace c @ evs \<and> releasesOf evs = []"
    by (auto simp: await_def logEvent_def split: list.splits if_splits)
  from releaseAll_returned [OF ra] c1 c' show ?thesis by auto
qed

lemma refreshAnimationPlayers_returned:
  assumes "refreshAnimationPlayers n c = (Returned u, c')"
  shows "\<exists>evs players.
           atrace c' = atrace c @ evs \<and>
           releasesOf evs = animationPlayers c \<and>
           ASettled (Inr players) \<in> set evs \<and> animationPlayers c' = players"
proof -
  from assms obtain u1 c1 where d: "destroyAnimationPlayers c = (Returned u1, c1)"
    by (auto simp: refreshAnimationPlayers_def split: prod.splits outcome.splits)
  from destroyAnimationPlayers_returned [OF d] obtain evs1 where
    e1: "atrace c1 = atrace c @ evs1" "releasesOf evs1 = animationPlayers c" by blast
  obtain r c2 where aw: "await (GetAnimationPlayersForNode n) c1 = (r, c2)"
    by (cases "await (GetAnimationPlayersForNode n) c1")
  with assms d obtain players where r: "r = Some (Inr players)"
    by (auto simp: refreshAnimationPlayers_def split: option.splits sum.splits)
  from aw r have c2: "atrace c2 = atrace c1 @ [ACalled (GetAnimationPlayersForNode n),
      ASettled (Inr players)]"
    by (auto simp: await_def logEvent_def split: list.splits)
  from assms d aw r have "animationPlayers c' = players \<and>
     (\<exists>more. atrace c' = atrace c2 @ more \<and> releasesOf more = [])"
    by (auto simp: refreshAnimationPlayers_def Let_def on_def logEvent_def)
  with e1 c2 show ?thesis by auto
qed

lemma removed_held_player:
  assumes "player \<in> set (animationPlayers c)" and "ascript c = Inr v # rs"
  shows "mutationsLoop [(''removed'', player)] c =
           (Returned (),
            c\<lparr>animationPlayers := remove1 player (animationPlayers c),
              atrace := atrace c @ [ACalled (Release player), ASettled (Inr v)],
              ascript := rs\<rparr>)"
  using assms by (simp add: await_def logEvent_def Let_def splice1_indexOf)

lemma added_player:
  "mutationsLoop [(''added'', player)] c =
     (Returned (), c\<lparr>animationPlayers := animationPlayers c @ [player]\<rparr>)"
  by simp

subsection \<open>What a task reads\<close>

lemma readsStateOnlyI:
  assumes "\<And>w t. run (w\<lparr>trace := t\<rparr>) =
             (fst (run w), (snd (run w))\<lparr>trace := t @ emitted w (snd (run w))\<rparr>)"
  shows "readsStateOnly run"
  unfolding readsStateOnly_def
proof (intro allI impI)
  fix w v :: world
  assume "store v = store w \<and> script v = script w"
  then have "v = w\<lparr>trace := trace v\<rparr>" by simp
  then have "run v = (fst (run w), (snd (run w))\<lparr>trace := trace v @ emitted w (snd (run w))\<rparr>)"
    using assms [where w = w and t = "trace v"] by simp
  then show "fst (run v) = fst (run w) \<and>
        emitted v (snd (run v)) = emitted w (snd (run w)) \<and>
        store (snd (run v)) = store (snd (run w)) \<and>
        script (snd (run v)) = script (snd (run w))"
    by (simp add: emitted_def)
qed

lemma takeSnapshot_retrace:
  "takeSnapshot e (w\<lparr>trace := t\<rparr>) =
     (fst (takeSnapshot e w),
      (snd (takeSnapshot e w))\<lparr>trace := t @ emitted w (snd (takeSnapshot e w))\<rparr>)"
  by (simp add: takeSnapshot_def emitted_def dispatch_def remote_def reportException_def
        Let_def selectSnapshot_def toggleDiffing_def split: list.splits sum.splits)

lemma readSnapshot_retrace:
  "readSnapshot e i (w\<lparr>trace := t\<rparr>) =
     (fst (readSnapshot e i w),
      (snd (readSnapshot e i w))\<lparr>trace := t @ emitted w (snd (readSnapshot e i w))\<rparr>)"
  by (simp add: readSnapshot_def failedAssertion_def noSnapshot_def emitted_def dispatch_def
        remote_def reportException_def Let_def split: list.splits sum.splits option.splits)

lemma censusLoop_retrace:
  "censusLoop e i s (w\<lparr>trace := t\<rparr>) =
     (fst (censusLoop e i s w),
      (snd (censusLoop e i s w))\<lparr>trace := t @ emitted w (snd (censusLoop e i s w))\<rparr>)"
proof (induction rs \<equiv> "script w" arbitrary: w t)
  case Nil
  then have "script w = []" "script (w\<lparr>trace := t\<rparr>) = []" by simp_all
  then show ?case
    using censusLoop_Nil [of w e i s] censusLoop_Nil [of "w\<lparr>trace := t\<rparr>" e i s]
    by (simp add: emitted_def censusStart_def censusCall_def)
next
  case (Cons r rs)
  let ?w2 = "afterCensusCall e i s r rs w"
  let ?first = "[Dispatched (censusStart i w), Called (censusCall s w)] @
              map External (during r) @ [Settled (result r)]"
  have sc: "script w = r # rs" "script (w\<lparr>trace := t\<rparr>) = r # rs"
    using Cons.hyps(2) by simp_all
  have a2: "afterCensusCall e i s r rs (w\<lparr>trace := t\<rparr>) = ?w2\<lparr>trace := t @ ?first\<rparr>"
    by (simp add: afterCensusCall_def censusStart_def censusCall_def)
  have tr2: "trace ?w2 = trace w @ ?first" by (simp add: afterCensusCall_def)
  have mm: "mismatch e (w\<lparr>trace := t\<rparr>) (?w2\<lparr>trace := t @ ?first\<rparr>) = mismatch e w ?w2"
    by (simp add: mismatch_def)
  show ?case
  proof (cases "result r")
    case (Inl error)
    then show ?thesis
      using censusLoop_Cons [OF sc(1), of e i s] censusLoop_Cons [OF sc(2), of e i s] a2 tr2
      by (simp add: emitted_def dispatch_def reportException_def)
  next
    case (Inr report')
    show ?thesis
    proof (cases "mismatch e w ?w2")
      case False
      then show ?thesis
        using censusLoop_Cons [OF sc(1), of e i s] censusLoop_Cons [OF sc(2), of e i s] a2 tr2 mm
          Inr
        by (simp add: emitted_def dispatch_def)
    next
      case True
      have r1: "censusLoop e i s w = censusLoop e i s ?w2"
        using censusLoop_Cons [OF sc(1), of e i s] Inr True by simp
      have r2: "censusLoop e i s (w\<lparr>trace := t\<rparr>) = censusLoop e i s (?w2\<lparr>trace := t @ ?first\<rparr>)"
        using censusLoop_Cons [OF sc(2), of e i s] Inr True a2 mm by simp
      have "rs = script ?w2" by (simp add: afterCensusCall_def)
      from Cons.hyps(1) [OF this, of "t @ ?first"]
      have ih: "censusLoop e i s (?w2\<lparr>trace := t @ ?first\<rparr>) =
          (fst (censusLoop e i s ?w2),
           (snd (censusLoop e i s ?w2))
             \<lparr>trace := (t @ ?first) @ emitted ?w2 (snd (censusLoop e i s ?w2))\<rparr>)" .
      obtain out w' where run2: "censusLoop e i s ?w2 = (out, w')"
        by (cases "censusLoop e i s ?w2")
      from censusLoop_run [OF run2] obtain evs where evs: "trace w' = trace ?w2 @ evs" by blast
      with tr2 have "trace w' = trace w @ (?first @ evs)" by simp
      then have "emitted w w' = ?first @ evs" by (rule emitted_append)
      moreover have "emitted ?w2 w' = evs" using evs by (rule emitted_append)
      ultimately have "emitted w w' = ?first @ emitted ?w2 w'" by simp
      with r1 r2 ih run2 show ?thesis by simp
    qed
  qed
qed

lemma takeCensus_retrace:
  "takeCensus e i (w\<lparr>trace := t\<rparr>) =
     (fst (takeCensus e i w),
      (snd (takeCensus e i w))\<lparr>trace := t @ emitted w (snd (takeCensus e i w))\<rparr>)"
  using censusLoop_retrace [where e = e and i = i and w = w and t = t]
  by (simp add: takeCensus_def failedAssertion_def noSnapshot_def reportException_def
        emitted_def split: option.splits)

lemma takeCensus_emitted_after:
  "trace w1 = trace w @ pre \<Longrightarrow>
   emitted w (snd (takeCensus e i w1)) = pre @ emitted w1 (snd (takeCensus e i w1))"
proof -
  assume a: "trace w1 = trace w @ pre"
  obtain evs where "trace (snd (takeCensus e i w1)) = trace w1 @ evs"
    using takeCensus_orderly [of e w1 i] by (auto simp: orderly_def)
  with a show ?thesis by (simp add: emitted_def)
qed

lemma refreshSelectedCensus_retrace:
  "refreshSelectedCensus e (w\<lparr>trace := t\<rparr>) =
     (fst (refreshSelectedCensus e w),
      (snd (refreshSelectedCensus e w))
        \<lparr>trace := t @ emitted w (snd (refreshSelectedCensus e w))\<rparr>)"
proof -
  have d: "\<And>j. dispatchTask (TakeCensusOf j) (w\<lparr>trace := t\<rparr>) =
      (dispatchTask (TakeCensusOf j) w)\<lparr>trace := t @ [DispatchedTask (TakeCensusOf j)]\<rparr>"
    by (simp add: dispatchTask_def)
  have t: "\<And>j. trace (dispatchTask (TakeCensusOf j) w) = trace w @ [DispatchedTask (TakeCensusOf j)]"
    by (simp add: dispatchTask_def)
  show ?thesis
    using takeCensus_retrace [where e = e and t = "t @ [DispatchedTask (TakeCensusOf _)]"]
      takeCensus_emitted_after [OF t, of e]
    by (simp add: refreshSelectedCensus_def d emitted_def [of w w] split: option.splits)
qed

lemma refreshSelectedCensus_emitted_after:
  "trace w1 = trace w @ pre \<Longrightarrow>
   emitted w (snd (refreshSelectedCensus e w1)) =
     pre @ emitted w1 (snd (refreshSelectedCensus e w1))"
proof -
  assume a: "trace w1 = trace w @ pre"
  obtain evs where "trace (snd (refreshSelectedCensus e w1)) = trace w1 @ evs"
    using refreshSelectedCensus_orderly [of e w1] by (auto simp: orderly_def)
  with a show ?thesis by (simp add: emitted_def)
qed

lemma selectSnapshotAndRefresh_retrace:
  "selectSnapshotAndRefresh e i (w\<lparr>trace := t\<rparr>) =
     (fst (selectSnapshotAndRefresh e i w),
      (snd (selectSnapshotAndRefresh e i w))
        \<lparr>trace := t @ emitted w (snd (selectSnapshotAndRefresh e i w))\<rparr>)"
proof -
  let ?w3 = "dispatchTask RefreshSelectedCensus
      (dispatch e (selectSnapshot i)
        (if diffing (store w) then dispatch e toggleDiffing w else w))"
  let ?pre = "(if diffing (store w) then [Dispatched toggleDiffing] else []) @
              [Dispatched (selectSnapshot i), DispatchedTask RefreshSelectedCensus]"
  have t3: "trace ?w3 = trace w @ ?pre"
    by (simp add: dispatch_def dispatchTask_def)
  have d: "dispatchTask RefreshSelectedCensus
      (dispatch e (selectSnapshot i)
        (if diffing (store (w\<lparr>trace := t\<rparr>)) then dispatch e toggleDiffing (w\<lparr>trace := t\<rparr>)
         else w\<lparr>trace := t\<rparr>)) = ?w3\<lparr>trace := t @ ?pre\<rparr>"
    by (simp add: dispatch_def dispatchTask_def)
  show ?thesis
    using refreshSelectedCensus_retrace [where e = e and w = ?w3 and t = "t @ ?pre"]
      refreshSelectedCensus_emitted_after [OF t3, of e] d
    by (simp add: selectSnapshotAndRefresh_def Let_def)
qed

subsection \<open>The records and the responses\<close>

lemma writtenAll_Nil [simp]: "writtenAll i [] fs = fs"
  by (simp add: writtenAll_def)

lemma writtenAll_Cons [simp]: "writtenAll i (a # as) fs = writtenAll i as (written i a fs)"
  by (simp add: writtenAll_def)

lemma writtenAll_append [simp]:
  "writtenAll i (as @ bs) fs = writtenAll i bs (writtenAll i as fs)"
  by (simp add: writtenAll_def)

lemma written_unwritten: "\<not> writesRecord a \<Longrightarrow> written i a fs = fs"
  by (cases a) simp_all

lemma writtenAll_unwritten: "\<forall>a \<in> set as. \<not> writesRecord a \<Longrightarrow> writtenAll i as fs = fs"
  by (induction as arbitrary: fs) (simp_all add: written_unwritten)

lemma written_Some: "\<exists>p c r. written i a (Some x) = Some (p, c, r)"
  by (cases a; cases x) auto

lemma writtenAll_Some: "\<exists>p c r. writtenAll i as (Some x) = Some (p, c, r)"
proof (induction as arbitrary: x)
  case Nil
  show ?case by (cases x) simp
next
  case (Cons a as)
  obtain p c r where "written i a (Some x) = Some (p, c, r)"
    using written_Some by blast
  with Cons.IH [of "(p, c, r)"] show ?case by simp
qed

lemma written_START: "id' x = i \<Longrightarrow> \<exists>p c r. written i (TAKE_SNAPSHOT_START x) fs = Some (p, c, r)"
  by (cases fs) auto

lemma fieldsOf_reducer:
  "mirrorsResponses (reducer e) \<Longrightarrow> fieldsOf (reducer e a st) i = written i a (fieldsOf st i)"
  by (simp add: mirrorsResponses_def)

lemma fieldsOf_applyAll:
  "mirrorsResponses (reducer e) \<Longrightarrow>
   fieldsOf (applyAll e as st) i = writtenAll i as (fieldsOf st i)"
  by (induction as arbitrary: st) (simp_all add: fieldsOf_reducer)

lemma orderly_fields:
  "mirrorsResponses (reducer e) \<Longrightarrow> orderly e w w' evs \<Longrightarrow>
   fieldsOf (store w') i = writtenAll i (actionsOf evs) (fieldsOf (store w) i)"
  by (simp add: orderly_def fieldsOf_applyAll)

lemma find_map_same_id:
  "(\<And>x. id' (h x) = id' x) \<Longrightarrow>
   find (\<lambda>x. id' x = i) (map h xs) = map_option h (find (\<lambda>x. id' x = i) xs)"
  by (induction xs) simp_all

lemma find_snoc:
  "find P (xs @ [x]) =
     (case find P xs of None \<Rightarrow> (if P x then Some x else None) | Some y \<Rightarrow> Some y)"
  by (induction xs) simp_all

lemma sampleReducer_mirrors: "mirrorsResponses sampleReducer"
  unfolding mirrorsResponses_def
proof (intro allI)
  fix a st i
  show "fieldsOf (sampleReducer a st) i = written i a (fieldsOf st i)"
  proof (cases a)
    case (TAKE_SNAPSHOT_START x)
    then show ?thesis
      by (cases "find (\<lambda>x. id' x = i) (snapshots st)")
         (simp_all add: fieldsOf_def getSnapshot_def find_snoc)
  next
    case (TAKE_SNAPSHOT_END j p)
    then show ?thesis
      by (cases "find (\<lambda>x. id' x = i) (snapshots st)")
         (auto simp: fieldsOf_def getSnapshot_def updateSnapshot_def find_map_same_id
            dest: find_Some_iff [THEN iffD1])
  next
    case (READ_SNAPSHOT_END j t)
    then show ?thesis
      by (cases "find (\<lambda>x. id' x = i) (snapshots st)")
         (auto simp: fieldsOf_def getSnapshot_def updateSnapshot_def find_map_same_id
            dest: find_Some_iff [THEN iffD1])
  next
    case (TAKE_CENSUS_END j b ivt f report')
    then show ?thesis
      by (cases "find (\<lambda>x. id' x = i) (snapshots st)")
         (auto simp: fieldsOf_def getSnapshot_def updateSnapshot_def find_map_same_id
            dest: find_Some_iff [THEN iffD1])
  next
    case TOGGLE_DIFFING
    then show ?thesis by (simp add: fieldsOf_def getSnapshot_def)
  next
    case (SELECT_SNAPSHOT j)
    then show ?thesis
      by (cases "find (\<lambda>x. id' x = i) (snapshots st)")
         (simp_all add: fieldsOf_def getSnapshot_def find_map_same_id)
  next
    case (SNAPSHOT_ERROR j error)
    then show ?thesis
      by (cases "find (\<lambda>x. id' x = i) (snapshots st)")
         (auto simp: fieldsOf_def getSnapshot_def updateSnapshot_def find_map_same_id)
  next
    case (READ_SNAPSHOT_START j)
    then show ?thesis
      by (cases "find (\<lambda>x. id' x = i) (snapshots st)")
         (auto simp: fieldsOf_def getSnapshot_def updateSnapshot_def find_map_same_id)
  next
    case (TAKE_CENSUS_START j ivt f b)
    then show ?thesis
      by (cases "find (\<lambda>x. id' x = i) (snapshots st)")
         (auto simp: fieldsOf_def getSnapshot_def updateSnapshot_def find_map_same_id)
  next
    case (OtherAction n)
    then show ?thesis by (simp add: fieldsOf_def getSnapshot_def)
  qed
qed

lemma sampleEnv_mirrors: "mirrorsResponses (reducer sampleEnv)"
  by (simp add: sampleEnv_def sampleReducer_mirrors)

subsection \<open>The census and the responses to come\<close>

lemma censusTurns_end_iff:
  "censusTurns e i s st sc evs out \<Longrightarrow>
   (Dispatched (TAKE_CENSUS_END j b ivt f rep) \<in> set evs) =
     (j = i \<and> endOfCensus e i st sc = Some (b, ivt, f, rep))"
proof (induction rule: censusTurns.induct)
  case (pending st)
  show ?case by simp
next
  case (failed r error st rs)
  then show ?case by auto
next
  case (current r report' st' st rs)
  then show ?case by (auto simp: stillCurrent_def afterFirstTurn_def)
next
  case (again r report' st' st rs evs out)
  then show ?case by (auto simp: stillCurrent_def afterFirstTurn_def)
qed

lemma censusTurns_outcome:
  "censusTurns e i s st sc evs out \<Longrightarrow>
   (\<exists>b ivt f rep. endOfCensus e i st sc = Some (b, ivt, f, rep) \<and> out = Returned ()) \<or>
   (\<exists>error. endOfCensus e i st sc = None \<and> Settled (Inl error) \<in> set evs \<and>
      out = Returned ()) \<or>
   (endOfCensus e i st sc = None \<and> out = Suspended \<and>
      (\<forall>r \<in> set sc. \<exists>v. result r = Inr v))"
proof (induction rule: censusTurns.induct)
  case (pending st)
  show ?case by simp
next
  case (failed r error st rs)
  then show ?case by auto
next
  case (current r report' st' st rs)
  then show ?case by (auto simp: stillCurrent_def afterFirstTurn_def)
next
  case (again r report' st' st rs evs out)
  then show ?case by (auto simp: stillCurrent_def afterFirstTurn_def)
qed

lemma censusTurns_unwritten:
  "censusTurns e i s st sc evs out \<Longrightarrow> undisturbed sc \<Longrightarrow> endOfCensus e i st sc = None \<Longrightarrow>
   \<forall>a \<in> set (actionsOf evs). \<not> writesRecord a"
proof (induction rule: censusTurns.induct)
  case (pending st)
  show ?case by simp
next
  case (failed r error st rs)
  then show ?case by (auto simp: undisturbed_def)
next
  case (current r report' st' st rs)
  then show ?case by (auto simp: stillCurrent_def afterFirstTurn_def)
next
  case (again r report' st' st rs evs out)
  then show ?case by (auto simp: undisturbed_def stillCurrent_def afterFirstTurn_def)
qed

lemma censusTurns_report:
  "censusTurns e i s st sc evs out \<Longrightarrow> endOfCensus e i st sc = Some (b, ivt, f, rep) \<Longrightarrow>
   \<exists>p c. writtenAll i (actionsOf evs) (Some x) = Some (p, c, Some rep)"
proof (induction arbitrary: x rule: censusTurns.induct)
  case (pending st)
  then show ?case by simp
next
  case (failed r error st rs)
  then show ?case by simp
next
  case (current r report' st' st rs)
  obtain p c r0 where "writtenAll i (during r) (Some x) = Some (p, c, r0)"
    using writtenAll_Some by blast
  with current show ?case by (auto simp: stillCurrent_def afterFirstTurn_def)
next
  case (again r report' st' st rs evs out)
  obtain p c r0 where "writtenAll i (during r) (Some x) = Some (p, c, r0)"
    using writtenAll_Some by blast
  with again.prems again.hyps again.IH [of "(p, c, r0)"] show ?case
    by (auto simp: stillCurrent_def afterFirstTurn_def)
qed

lemma censusTurns_reports:
  "censusTurns e i s st sc evs out \<Longrightarrow> Reported who error \<in> set evs \<Longrightarrow> who = ''takeCensus''"
  by (induction rule: censusTurns.induct) auto

lemma takeCensus_loop:
  "getSnapshot (store w) i = Some s \<Longrightarrow> assertions e \<longrightarrow> state s \<in> {READ, SAVED_CENSUS} \<Longrightarrow>
   \<not> censusIsUpToDate e (inverted (store w)) (filter' (store w)) (breakdown (store w))
       (census s) \<Longrightarrow>
   takeCensus e i w = censusLoop e i s w"
  by (auto simp: takeCensus_def)

lemma takeCensus_turns:
  assumes "getSnapshot (store w) i = Some s" and "assertions e \<longrightarrow> state s \<in> {READ, SAVED_CENSUS}"
    and "\<not> censusIsUpToDate e (inverted (store w)) (filter' (store w)) (breakdown (store w))
           (census s)"
  shows "censusTurns e i s (store w) (script w) (emitted w (snd (takeCensus e i w)))
           (fst (takeCensus e i w))"
proof -
  obtain out w' where run: "censusLoop e i s w = (out, w')" by (cases "censusLoop e i s w")
  from censusLoop_turns [OF run] takeCensus_loop [OF assms] run show ?thesis by simp
qed

text \<open>When the loop is not entered, \<open>takeCensus\<close> leaves the store and the script alone.\<close>

lemma takeCensus_idle:
  assumes "\<not> (\<exists>s. getSnapshot (store w) i = Some s \<and>
               (assertions e \<longrightarrow> state s \<in> {READ, SAVED_CENSUS}) \<and>
               \<not> censusIsUpToDate e (inverted (store w)) (filter' (store w))
                   (breakdown (store w)) (census s))"
  shows "store (snd (takeCensus e i w)) = store w \<and> script (snd (takeCensus e i w)) = script w \<and>
         fst (takeCensus e i w) \<noteq> Suspended \<and>
         (emitted w (snd (takeCensus e i w)) = [] \<or>
          (\<exists>error. emitted w (snd (takeCensus e i w)) = [Reported ''DevToolsUtils.assert'' error] \<and>
             fst (takeCensus e i w) = Threw error))"
  using assms
  by (auto simp: takeCensus_def failedAssertion_def noSnapshot_def reportException_def
        emitted_def split: option.splits)

lemma takeCensus_end_iff:
  "(Dispatched (TAKE_CENSUS_END j b ivt f rep) \<in> set (emitted w (snd (takeCensus e i w)))) =
     (j = i \<and>
      (\<exists>s. getSnapshot (store w) i = Some s \<and>
         (assertions e \<longrightarrow> state s \<in> {READ, SAVED_CENSUS}) \<and>
         \<not> censusIsUpToDate e (inverted (store w)) (filter' (store w)) (breakdown (store w))
             (census s)) \<and>
      endOfCensus e i (store w) (script w) = Some (b, ivt, f, rep))"
proof (cases "\<exists>s. getSnapshot (store w) i = Some s \<and>
               (assertions e \<longrightarrow> state s \<in> {READ, SAVED_CENSUS}) \<and>
               \<not> censusIsUpToDate e (inverted (store w)) (filter' (store w))
                   (breakdown (store w)) (census s)")
  case True
  then obtain s where s: "getSnapshot (store w) i = Some s"
    "assertions e \<longrightarrow> state s \<in> {READ, SAVED_CENSUS}"
    "\<not> censusIsUpToDate e (inverted (store w)) (filter' (store w)) (breakdown (store w))
           (census s)" by blast
  from censusTurns_end_iff [OF takeCensus_turns [OF s]] True show ?thesis by simp
next
  case False
  from takeCensus_idle [OF False] False show ?thesis by auto
qed

lemma takeCensus_assertion:
  assumes "Reported ''DevToolsUtils.assert'' error \<in> set (emitted w (snd (takeCensus e i w)))"
  shows "fst (takeCensus e i w) = Threw error \<and>
         emitted w (snd (takeCensus e i w)) = [Reported ''DevToolsUtils.assert'' error]"
proof (cases "\<exists>s. getSnapshot (store w) i = Some s \<and>
               (assertions e \<longrightarrow> state s \<in> {READ, SAVED_CENSUS}) \<and>
               \<not> censusIsUpToDate e (inverted (store w)) (filter' (store w))
                   (breakdown (store w)) (census s)")
  case True
  then obtain s where s: "getSnapshot (store w) i = Some s"
    "assertions e \<longrightarrow> state s \<in> {READ, SAVED_CENSUS}"
    "\<not> censusIsUpToDate e (inverted (store w)) (filter' (store w)) (breakdown (store w))
           (census s)" by blast
  from censusTurns_reports [OF takeCensus_turns [OF s] assms] show ?thesis by simp
next
  case False
  from takeCensus_idle [OF False] assms show ?thesis by auto
qed

subsection \<open>The fields of the records after a run\<close>

lemma fields_replay:
  assumes "mirrorsResponses (reducer e)" and "\<exists>evs. orderly e w w' evs"
  shows "fieldsOf (store w') k = writtenAll k (actionsOf (emitted w w')) (fieldsOf (store w) k)"
  using orderly_fields [OF assms(1) orderly_is_emitted [OF assms(2)]] .

lemma fieldsOf_path:
  "fieldsOf st i = Some (p, c, r) \<Longrightarrow> \<exists>x. getSnapshot st i = Some x \<and> path x = p"
  by (auto simp: fieldsOf_def)

lemma fieldsOf_creationTime:
  "fieldsOf st i = Some (p, c, r) \<Longrightarrow> \<exists>x. getSnapshot st i = Some x \<and> creationTime x = c"
  by (auto simp: fieldsOf_def)

lemma fieldsOf_report:
  "fieldsOf st i = Some (p, c, r) \<Longrightarrow> \<exists>x. getSnapshot st i = Some x \<and> report x = r"
  by (auto simp: fieldsOf_def)

lemma takeSnapshot_path:
  assumes m: "mirrorsResponses (reducer e)" and sc: "script w = r # rs" "result r = Inr p"
  shows "\<exists>x. getSnapshot (store (snd (takeSnapshot e w))) (id' (createSnapshot e)) = Some x \<and>
             path x = Some p"
proof -
  let ?i = "id' (createSnapshot e)"
  let ?f0 = "writtenAll ?i (if diffing (store w) then [toggleDiffing] else [])
               (fieldsOf (store w) ?i)"
  have f0: "?f0 = fieldsOf (store w) ?i" by (simp add: toggleDiffing_def)
  obtain p1 c1 r1 where f1: "written ?i (TAKE_SNAPSHOT_START (createSnapshot e))
      (fieldsOf (store w) ?i) = Some (p1, c1, r1)"
    using written_START [of "createSnapshot e" ?i] by blast
  obtain p2 c2 r2 where f2: "writtenAll ?i (during r) (Some (p1, c1, r1)) = Some (p2, c2, r2)"
    using writtenAll_Some by blast
  have "fieldsOf (store (snd (takeSnapshot e w))) ?i =
          writtenAll ?i (actionsOf (emitted w (snd (takeSnapshot e w)))) (fieldsOf (store w) ?i)"
    using fields_replay [OF m] takeSnapshot_orderly [of e w] by blast
  also have "\<dots> = Some (Some p, c2, r2)"
    using f1 f2 by (simp add: takeSnapshot_resolved [OF sc] toggleDiffing_def)
  finally show ?thesis by (rule fieldsOf_path)
qed

lemma takeSnapshot_unwritten:
  assumes m: "mirrorsResponses (reducer e)" and u: "undisturbed (script w)"
    and n: "\<not> (\<exists>r rs p. script w = r # rs \<and> result r = Inr p)"
  shows "fieldsOf (store (snd (takeSnapshot e w))) k =
           written k (TAKE_SNAPSHOT_START (createSnapshot e)) (fieldsOf (store w) k)"
proof (cases "script w")
  case Nil
  then show ?thesis
    using m by (simp add: takeSnapshot_def remote_def dispatch_def Let_def selectSnapshot_def
          toggleDiffing_def fieldsOf_reducer)
next
  case (Cons r rs)
  with n obtain error where "result r = Inl error" by (cases "result r") auto
  moreover from u Cons have "\<forall>a \<in> set (during r). \<not> writesRecord a"
    by (simp add: undisturbed_def)
  ultimately show ?thesis
    using m Cons
    by (simp add: takeSnapshot_def remote_def dispatch_def reportException_def Let_def
          selectSnapshot_def toggleDiffing_def fieldsOf_reducer fieldsOf_applyAll
          writtenAll_unwritten)
qed

lemma readSnapshot_creationTime:
  assumes m: "mirrorsResponses (reducer e)" and s: "getSnapshot (store w) i = Some s"
    and a: "assertions e \<longrightarrow> state s \<in> {SAVED, IMPORTING}"
    and sc: "script w = r1 # r2 # rs" "result r1 = Inr v" "result r2 = Inr t"
  shows "\<exists>x. getSnapshot (store (snd (readSnapshot e i w))) i = Some x \<and>
             creationTime x = Some t"
proof -
  from s have f0: "fieldsOf (store w) i = Some (path s, creationTime s, report s)"
    by (simp add: fieldsOf_def)
  obtain p1 c1 q1 where f1: "writtenAll i (during r1) (Some (path s, creationTime s, report s)) =
      Some (p1, c1, q1)"
    using writtenAll_Some by blast
  obtain p2 c2 q2 where f2: "writtenAll i (during r2) (Some (p1, c1, q1)) = Some (p2, c2, q2)"
    using writtenAll_Some by blast
  have "fieldsOf (store (snd (readSnapshot e i w))) i =
          writtenAll i (actionsOf (emitted w (snd (readSnapshot e i w)))) (fieldsOf (store w) i)"
    using fields_replay [OF m] readSnapshot_orderly [of e w i] by blast
  also have "\<dots> = Some (p2, Some t, q2)"
    using f0 f1 f2 by (simp add: readSnapshot_resolved [OF s a sc])
  finally show ?thesis by (rule fieldsOf_creationTime)
qed

lemma readSnapshot_writes:
  "a \<in> set (actionsOf (emitted w (snd (readSnapshot e i w)))) \<Longrightarrow> writesRecord a \<Longrightarrow>
   undisturbed (script w) \<Longrightarrow>
   \<exists>t. a = READ_SNAPSHOT_END i t \<and>
       Dispatched (READ_SNAPSHOT_END i t) \<in> set (emitted w (snd (readSnapshot e i w)))"
  by (auto simp: readSnapshot_def failedAssertion_def noSnapshot_def emitted_def dispatch_def
        remote_def reportException_def Let_def undisturbed_def
        split: list.splits sum.splits if_splits option.splits)

lemma readSnapshot_unwritten:
  assumes m: "mirrorsResponses (reducer e)" and u: "undisturbed (script w)"
    and n: "\<forall>t. Dispatched (READ_SNAPSHOT_END i t) \<notin> set (emitted w (snd (readSnapshot e i w)))"
  shows "fieldsOf (store (snd (readSnapshot e i w))) k = fieldsOf (store w) k"
proof -
  have "\<forall>a \<in> set (actionsOf (emitted w (snd (readSnapshot e i w)))). \<not> writesRecord a"
    using readSnapshot_writes [of _ w e i] u n by blast
  moreover have "fieldsOf (store (snd (readSnapshot e i w))) k =
      writtenAll k (actionsOf (emitted w (snd (readSnapshot e i w)))) (fieldsOf (store w) k)"
    using fields_replay [OF m] readSnapshot_orderly [of e w i] by blast
  ultimately show ?thesis by (simp add: writtenAll_unwritten)
qed

lemma takeCensus_report:
  assumes m: "mirrorsResponses (reducer e)" and s: "getSnapshot (store w) i = Some s"
    and a: "assertions e \<longrightarrow> state s \<in> {READ, SAVED_CENSUS}"
    and n: "\<not> censusIsUpToDate e (inverted (store w)) (filter' (store w)) (breakdown (store w))
           (census s)"
    and en: "endOfCensus e i (store w) (script w) = Some (b, ivt, f, rep)"
  shows "\<exists>x. getSnapshot (store (snd (takeCensus e i w))) i = Some x \<and> report x = Some rep"
proof -
  from s have f0: "fieldsOf (store w) i = Some (path s, creationTime s, report s)"
    by (simp add: fieldsOf_def)
  obtain p c where f1: "writtenAll i (actionsOf (emitted w (snd (takeCensus e i w))))
      (Some (path s, creationTime s, report s)) = Some (p, c, Some rep)"
    using censusTurns_report [OF takeCensus_turns [OF s a n] en] by blast
  have "fieldsOf (store (snd (takeCensus e i w))) i =
          writtenAll i (actionsOf (emitted w (snd (takeCensus e i w)))) (fieldsOf (store w) i)"
    using fields_replay [OF m] takeCensus_orderly [of e w i] by blast
  also have "\<dots> = Some (p, c, Some rep)"
    using f0 f1 by simp
  finally show ?thesis by (rule fieldsOf_report)
qed

lemma takeCensus_unwritten:
  assumes m: "mirrorsResponses (reducer e)" and u: "undisturbed (script w)"
    and n: "\<forall>b ivt f rep. Dispatched (TAKE_CENSUS_END i b ivt f rep) \<notin>
              set (emitted w (snd (takeCensus e i w)))"
  shows "fieldsOf (store (snd (takeCensus e i w))) k = fieldsOf (store w) k"
proof (cases "\<exists>s. getSnapshot (store w) i = Some s \<and>
               (assertions e \<longrightarrow> state s \<in> {READ, SAVED_CENSUS}) \<and>
               \<not> censusIsUpToDate e (inverted (store w)) (filter' (store w))
                   (breakdown (store w)) (census s)")
  case True
  then obtain s where s: "getSnapshot (store w) i = Some s"
    "assertions e \<longrightarrow> state s \<in> {READ, SAVED_CENSUS}"
    "\<not> censusIsUpToDate e (inverted (store w)) (filter' (store w)) (breakdown (store w))
           (census s)" by blast
  have "endOfCensus e i (store w) (script w) = None"
  proof (cases "endOfCensus e i (store w) (script w)")
    case None
    then show ?thesis .
  next
    case (Some x)
    obtain b ivt f rep where "x = (b, ivt, f, rep)" by (cases x)
    with Some n show ?thesis
      using censusTurns_end_iff [OF takeCensus_turns [OF s], of i b ivt f rep] by simp
  qed
  from censusTurns_unwritten [OF takeCensus_turns [OF s] u this]
  have "\<forall>a \<in> set (actionsOf (emitted w (snd (takeCensus e i w)))). \<not> writesRecord a" .
  moreover have "fieldsOf (store (snd (takeCensus e i w))) k =
      writtenAll k (actionsOf (emitted w (snd (takeCensus e i w)))) (fieldsOf (store w) k)"
    using fields_replay [OF m] takeCensus_orderly [of e w i] by blast
  ultimately show ?thesis by (simp add: writtenAll_unwritten)
next
  case False
  from takeCensus_idle [OF False] show ?thesis by simp
qed

subsection \<open>The reports of failed assertions\<close>

lemma takeSnapshot_no_assertion:
  "Reported ''DevToolsUtils.assert'' error \<notin> set (emitted w (snd (takeSnapshot e w)))"
  by (auto simp: takeSnapshot_def emitted_def dispatch_def remote_def reportException_def
        Let_def selectSnapshot_def toggleDiffing_def split: list.splits sum.splits)

lemma readSnapshot_assertion:
  "Reported ''DevToolsUtils.assert'' error \<in> set (emitted w (snd (readSnapshot e i w))) \<Longrightarrow>
   fst (readSnapshot e i w) = Threw error"
  by (auto simp: readSnapshot_def failedAssertion_def noSnapshot_def emitted_def dispatch_def
        remote_def reportException_def Let_def
        split: list.splits sum.splits if_splits option.splits)

lemma refreshSelectedCensus_assertion:
  assumes "Reported ''DevToolsUtils.assert'' error \<in>
             set (emitted w (snd (refreshSelectedCensus e w)))"
  shows "fst (refreshSelectedCensus e w) = Threw error"
proof (cases "\<exists>x. find selected (snapshots (store w)) = Some x \<and> state x = SAVED_CENSUS")
  case False
  with assms show ?thesis
    by (auto simp: refreshSelectedCensus_def emitted_def split: option.splits)
next
  case True
  then obtain x where x: "find selected (snapshots (store w)) = Some x" "state x = SAVED_CENSUS"
    by blast
  let ?w1 = "dispatchTask (TakeCensusOf (id' x)) w"
  have r: "refreshSelectedCensus e w = takeCensus e (id' x) ?w1"
    using x by (simp add: refreshSelectedCensus_def)
  have "trace ?w1 = trace w @ [DispatchedTask (TakeCensusOf (id' x))]"
    by (simp add: dispatchTask_def)
  from takeCensus_emitted_after [OF this, of e "id' x"] assms r
  have "Reported ''DevToolsUtils.assert'' error \<in>
          set (emitted ?w1 (snd (takeCensus e (id' x) ?w1)))" by simp
  from takeCensus_assertion [OF this] r show ?thesis by simp
qed

lemma selectSnapshotAndRefresh_assertion:
  assumes "Reported ''DevToolsUtils.assert'' error \<in>
             set (emitted w (snd (selectSnapshotAndRefresh e i w)))"
  shows "fst (selectSnapshotAndRefresh e i w) = Threw error"
proof -
  let ?w1 = "if diffing (store w) then dispatch e toggleDiffing w else w"
  let ?w2 = "dispatch e (selectSnapshot i) ?w1"
  let ?w3 = "dispatchTask RefreshSelectedCensus ?w2"
  let ?pre = "(if diffing (store w) then [Dispatched toggleDiffing] else []) @
              [Dispatched (selectSnapshot i), DispatchedTask RefreshSelectedCensus]"
  have r: "selectSnapshotAndRefresh e i w = refreshSelectedCensus e ?w3"
    by (simp add: selectSnapshotAndRefresh_def Let_def)
  have "trace ?w3 = trace w @ ?pre"
    by (simp add: dispatch_def dispatchTask_def)
  from refreshSelectedCensus_emitted_after [OF this, of e] assms r
  have "Reported ''DevToolsUtils.assert'' error \<in>
          set (emitted ?w3 (snd (refreshSelectedCensus e ?w3)))"
    by (auto split: if_splits)
  from refreshSelectedCensus_assertion [OF this] r show ?thesis by simp
qed

subsection \<open>The tasks read the state and the responses only\<close>

lemma takeSnapshot_reads: "readsStateOnly (takeSnapshot e)"
  by (rule readsStateOnlyI) (rule takeSnapshot_retrace)

lemma readSnapshot_reads: "readsStateOnly (readSnapshot e i)"
  by (rule readsStateOnlyI) (rule readSnapshot_retrace)

lemma takeCensus_reads: "readsStateOnly (takeCensus e i)"
  by (rule readsStateOnlyI) (rule takeCensus_retrace)

lemma refreshSelectedCensus_reads: "readsStateOnly (refreshSelectedCensus e)"
  by (rule readsStateOnlyI) (rule refreshSelectedCensus_retrace)

lemma selectSnapshotAndRefresh_reads: "readsStateOnly (selectSnapshotAndRefresh e i)"
  by (rule readsStateOnlyI) (rule selectSnapshotAndRefresh_retrace)

subsection \<open>One turn of the census loop\<close>

lemma mismatch_stillCurrent:
  "mismatch e w (afterCensusCall e i s r rs w) =
     (\<not> stillCurrent e (store w) (afterFirstTurn e i r (store w)))"
  by (auto simp: mismatch_def stillCurrent_def afterCensusCall_def afterFirstTurn_def
        censusStart_def)

lemma censusLoop_current:
  "script w = r # rs \<Longrightarrow> result r = Inr rep \<Longrightarrow>
   stillCurrent e (store w) (afterFirstTurn e i r (store w)) \<Longrightarrow>
   censusLoop e i s w =
     (Returned (),
      dispatch e
        (TAKE_CENSUS_END i (breakdown (store w)) (inverted (store w)) (filter' (store w)) rep)
        (afterCensusCall e i s r rs w))"
  by (simp add: censusLoop_Cons mismatch_stillCurrent)

lemma censusLoop_again:
  "script w = r # rs \<Longrightarrow> result r = Inr rep \<Longrightarrow>
   \<not> stillCurrent e (store w) (afterFirstTurn e i r (store w)) \<Longrightarrow>
   censusLoop e i s w = censusLoop e i s (afterCensusCall e i s r rs w)"
  by (simp add: censusLoop_Cons mismatch_stillCurrent)

lemma Max_with_zero:
  fixes A :: "real set"
  assumes "finite A" and "A \<noteq> {}" and "\<forall>x \<in> A. 0 \<le> x"
  shows "Max (insert 0 A) = Max A"
proof -
  have "Max A \<in> A" using assms(1,2) by (rule Max_in)
  with assms(3) have "0 \<le> Max A" by blast
  with assms(1,2) show ?thesis by (simp add: max_def)
qed

section \<open>The claims\<close>

text \<open>
  C1. When a remote call of \<open>takeSnapshot\<close>, \<open>readSnapshot\<close> or \<open>takeCensus\<close>
  fails, the error is caught and reported, \<open>SNAPSHOT_ERROR\<close> is dispatched with the
  snapshot's id and the error, and the operation aborts: the task returns (\<open>null\<close> for
  \<open>takeSnapshot\<close>), nothing follows the \<open>SNAPSHOT_ERROR\<close> in the trace, so no action is
  dispatched any more and no call is issued again, and no call had failed before.
\<close>

theorem remote_failure_caught_reported_aborts:
  "(Settled (Inl error) \<in> set (emitted w1 (snd (takeSnapshot e w1))) \<longrightarrow>
      fst (takeSnapshot e w1) = Returned None \<and>
      abortedAt ''takeSnapshot'' (id' (createSnapshot e)) error
        (emitted w1 (snd (takeSnapshot e w1)))) \<and>
   (Settled (Inl error) \<in> set (emitted w2 (snd (readSnapshot e i w2))) \<longrightarrow>
      fst (readSnapshot e i w2) = Returned () \<and>
      abortedAt ''readSnapshot'' i error (emitted w2 (snd (readSnapshot e i w2)))) \<and>
   (Settled (Inl error) \<in> set (emitted w (snd (takeCensus e i w))) \<longrightarrow>
      fst (takeCensus e i w) = Returned () \<and>
      abortedAt ''takeCensus'' i error (emitted w (snd (takeCensus e i w))))"
proof (intro conjI impI)
  assume a: "Settled (Inl error) \<in> set (emitted w1 (snd (takeSnapshot e w1)))"
  then show "fst (takeSnapshot e w1) = Returned None"
    by (auto simp: takeSnapshot_def emitted_def dispatch_def remote_def reportException_def
          Let_def selectSnapshot_def split: list.splits sum.splits if_splits)
  from a show "abortedAt ''takeSnapshot'' (id' (createSnapshot e)) error
        (emitted w1 (snd (takeSnapshot e w1)))"
    unfolding abortedAt_def
    by (auto simp: takeSnapshot_def emitted_def dispatch_def remote_def reportException_def
          Let_def selectSnapshot_def split: list.splits sum.splits if_splits)
next
  assume a: "Settled (Inl error) \<in> set (emitted w2 (snd (readSnapshot e i w2)))"
  then show "fst (readSnapshot e i w2) = Returned ()"
    by (auto simp: readSnapshot_def failedAssertion_def noSnapshot_def emitted_def dispatch_def remote_def reportException_def
          Let_def split: list.splits sum.splits if_splits option.splits)
  from a show "abortedAt ''readSnapshot'' i error (emitted w2 (snd (readSnapshot e i w2)))"
    unfolding abortedAt_def
    by (auto simp: readSnapshot_def failedAssertion_def noSnapshot_def emitted_def dispatch_def remote_def reportException_def
          Let_def split: list.splits sum.splits if_splits option.splits)
next
  assume a: "Settled (Inl error) \<in> set (emitted w (snd (takeCensus e i w)))"
  obtain out w' where run: "takeCensus e i w = (out, w')" by (cases "takeCensus e i w")
  from takeCensus_cases [OF run] a run
  obtain s evs where "trace w' = trace w @ evs" "censusRun e i s (store w) out evs"
    by (auto simp: emitted_def reportException_def)
  with a run have "out = Returned () \<and> abortedAt ''takeCensus'' i error evs"
    using censusRun_failure [of e i s "store w" out evs error] by simp
  with run \<open>trace w' = trace w @ evs\<close>
  show "fst (takeCensus e i w) = Returned ()"
    and "abortedAt ''takeCensus'' i error (emitted w (snd (takeCensus e i w)))"
    by simp_all
qed

text \<open>
  The three hypotheses hold on concrete runs: a snapshot whose save is rejected, a
  saved snapshot whose read is rejected, and a census that is taken again after a
  click on \<open>invert\<close> and is rejected the second time.
\<close>

theorem remote_failure_witness:
  "Settled (Inl ''boom'') \<in> set (emitted failingSave (snd (takeSnapshot sampleEnv failingSave))) \<and>
   Settled (Inl ''boom'') \<in> set (emitted failingRead (snd (readSnapshot sampleEnv 1 failingRead))) \<and>
   Settled (Inl ''boom'') \<in>
     set (emitted failingCensus (snd (takeCensus sampleEnv 1 failingCensus))) \<and>
   fst (takeSnapshot sampleEnv failingSave) = Returned None \<and>
   abortedAt ''takeSnapshot'' 1 ''boom''
     (emitted failingSave (snd (takeSnapshot sampleEnv failingSave))) \<and>
   abortedAt ''readSnapshot'' 1 ''boom''
     (emitted failingRead (snd (readSnapshot sampleEnv 1 failingRead))) \<and>
   abortedAt ''takeCensus'' 1 ''boom''
     (emitted failingCensus (snd (takeCensus sampleEnv 1 failingCensus)))"
proof -
  have h1: "Settled (Inl ''boom'') \<in>
     set (emitted failingSave (snd (takeSnapshot sampleEnv failingSave)))"
    by code_simp
  have h2: "Settled (Inl ''boom'') \<in>
     set (emitted failingRead (snd (readSnapshot sampleEnv 1 failingRead)))"
    by code_simp
  have h3: "Settled (Inl ''boom'') \<in>
     set (emitted failingCensus (snd (takeCensus sampleEnv 1 failingCensus)))"
    by code_simp
  have i: "id' (createSnapshot sampleEnv) = 1"
    by (simp add: sampleEnv_def sampleSnapshot_def)
  from h1 h2 h3 i show ?thesis
    using remote_failure_caught_reported_aborts
      [of "''boom''" failingSave sampleEnv failingRead 1 failingCensus]
    by simp
qed

text \<open>
  C2. The tasks that a run of \<open>takeSnapshotAndCensus\<close> dispatches, in order:
  \<open>takeSnapshot\<close> first; \<open>readSnapshot\<close> for the id it returned, unless it returned
  \<open>null\<close> (or did not return); then \<open>takeCensus\<close> for that id if and only if
  \<open>readSnapshot\<close> has returned and the snapshot's state is then \<open>READ\<close>. When
  \<open>takeSnapshot\<close> returns \<open>null\<close> the task returns in the very world
  \<open>takeSnapshot\<close> left, so nothing else was dispatched.
\<close>

theorem takeSnapshotAndCensus_order:
  "(\<exists>rest. emitted w (snd (takeSnapshotAndCensus e w)) = DispatchedTask TakeSnapshot # rest) \<and>
   tasksOf (emitted w (snd (takeSnapshotAndCensus e w))) =
     (case takeSnapshot e (dispatchTask TakeSnapshot w) of
        (Returned (Some i), w1) \<Rightarrow>
          TakeSnapshot # ReadSnapshot i #
          (case readSnapshot e i (dispatchTask (ReadSnapshot i) w1) of
             (Returned u, w2) \<Rightarrow>
               if map_option state (getSnapshot (store w2) i) = Some READ
               then [TakeCensusOf i] else []
           | (other, w2) \<Rightarrow> [])
      | (other, w1) \<Rightarrow> [TakeSnapshot]) \<and>
   (fst (takeSnapshot e (dispatchTask TakeSnapshot w)) = Returned None \<longrightarrow>
      takeSnapshotAndCensus e w =
        (Returned (), snd (takeSnapshot e (dispatchTask TakeSnapshot w))))"
proof -
  let ?w0 = "dispatchTask TakeSnapshot w"
  obtain o1 w1 where r1: "takeSnapshot e ?w0 = (o1, w1)" by (cases "takeSnapshot e ?w0")
  obtain evs1 where e1: "trace w1 = trace ?w0 @ evs1" "tasksOf evs1 = []"
    using takeSnapshot_orderly [of e ?w0] r1 by (auto simp: orderly_def)
  have t0: "trace ?w0 = trace w @ [DispatchedTask TakeSnapshot]"
    by (simp add: dispatchTask_def)
  show ?thesis
  proof (cases "\<exists>i. o1 = Returned (Some i)")
    case False
    then show ?thesis using r1 e1 t0
      by (auto simp: takeSnapshotAndCensus_def failedAssertion_def noSnapshot_def
            reportException_def emitted_def split: outcome.splits option.splits)
  next
    case True
    then obtain i where o1: "o1 = Returned (Some i)" by blast
    let ?w1 = "dispatchTask (ReadSnapshot i) w1"
    obtain o2 w2 where r2: "readSnapshot e i ?w1 = (o2, w2)" by (cases "readSnapshot e i ?w1")
    obtain evs2 where e2: "trace w2 = trace ?w1 @ evs2" "tasksOf evs2 = []"
      using readSnapshot_orderly [of e ?w1 i] r2 by (auto simp: orderly_def)
    have t1: "trace ?w1 = trace w1 @ [DispatchedTask (ReadSnapshot i)]"
      by (simp add: dispatchTask_def)
    let ?w2 = "dispatchTask (TakeCensusOf i) w2"
    obtain o3 w3 where r3: "takeCensus e i ?w2 = (o3, w3)" by (cases "takeCensus e i ?w2")
    obtain evs3 where e3: "trace w3 = trace ?w2 @ evs3" "tasksOf evs3 = []"
      using takeCensus_orderly [of e ?w2 i] r3 by (auto simp: orderly_def)
    have t2: "trace ?w2 = trace w2 @ [DispatchedTask (TakeCensusOf i)]"
      by (simp add: dispatchTask_def)
    show ?thesis using r1 o1 r2 r3 e1 e2 e3 t0 t1 t2
      by (auto simp: takeSnapshotAndCensus_def failedAssertion_def noSnapshot_def
            reportException_def emitted_def split: outcome.splits option.splits)
  qed
qed

theorem takeSnapshotAndCensus_order_witness:
  "fst (takeSnapshot sampleEnv (dispatchTask TakeSnapshot failingSave)) = Returned None \<and>
   takeSnapshotAndCensus sampleEnv failingSave =
     (Returned (), snd (takeSnapshot sampleEnv (dispatchTask TakeSnapshot failingSave))) \<and>
   tasksOf (emitted failingSave (snd (takeSnapshotAndCensus sampleEnv failingSave))) =
     [TakeSnapshot] \<and>
   tasksOf (emitted fullRun (snd (takeSnapshotAndCensus sampleEnv fullRun))) =
     [TakeSnapshot, ReadSnapshot 1, TakeCensusOf 1]"
proof -
  have h: "fst (takeSnapshot sampleEnv (dispatchTask TakeSnapshot failingSave)) = Returned None"
    by code_simp
  have t1: "tasksOf (emitted failingSave (snd (takeSnapshotAndCensus sampleEnv failingSave))) =
     [TakeSnapshot]"
    by code_simp
  have t2: "tasksOf (emitted fullRun (snd (takeSnapshotAndCensus sampleEnv fullRun))) =
     [TakeSnapshot, ReadSnapshot 1, TakeCensusOf 1]"
    by code_simp
  from h t1 t2 show ?thesis
    using takeSnapshotAndCensus_order [of failingSave sampleEnv] by simp
qed

text \<open>
  C3. The list does not always hold exactly the live fronts. For a \<open>removed\<close> change
  whose player is not in the list, \<open>indexOf\<close> returns \<open>-1\<close> and \<open>splice(-1, 1)\<close>
  removes the last front of the list instead (lemma \<open>splice1_indexOf\<close>). Here the
  controller holds player 1 and is told that player 2 was removed: player 2 is
  released, and player 1 leaves the list although it is never released. What the
  claim says of \<open>refreshAnimationPlayers\<close>, of \<open>destroyAnimationPlayers\<close>, of \<open>added\<close>
  changes and of \<open>removed\<close> changes of a player of the list holds when the calls
  resolve (the lemmas on the list of players).
\<close>

theorem onAnimationMutations_drops_live_player:
  "fst (onAnimationMutations [(''removed'', 2)] holdingOne) = Returned () \<and>
   animationPlayers (snd (onAnimationMutations [(''removed'', 2)] holdingOne)) = [] \<and>
   atrace (snd (onAnimationMutations [(''removed'', 2)] holdingOne)) =
     [ACalled (Release 2), ASettled (Inr []), Emit PLAYERS_UPDATED_EVENT (Some [])]"
  by code_simp


text \<open>
  C4. The three fields of a snapshot record are filled by the three end actions, and
  each end action is dispatched exactly when the responses it waits for arrive.
  \<open>TAKE_SNAPSHOT_END\<close> is dispatched exactly when \<open>saveHeapSnapshot\<close> resolves, with the
  new snapshot's id and the path, right after the resolution. \<open>READ_SNAPSHOT_END\<close> is
  dispatched exactly when the snapshot is found (in a state that may be read) and
  \<open>readHeapSnapshot\<close> and then \<open>getCreationTime\<close> resolve, with the creation time,
  right after the latter resolves. \<open>TAKE_CENSUS_END\<close> is dispatched exactly when the
  snapshot is found (in a state of which a census may be taken), its census is not up
  to date, and the responses to come end the census (\<open>endOfCensus\<close>); it carries the
  values and the report of that turn, right after the call of that turn resolves.

  With a reducer that writes to the records what the end actions carry
  (\<open>mirrorsResponses\<close>): once an end action has been dispatched, the record holds
  the path, the creation time or the report that the call resolved with; and a run
  that dispatches no end action leaves the fields of every record as they were
  (\<open>takeSnapshot\<close> has then only brought the new record in), as long as nobody else
  writes to the records meanwhile.
\<close>

theorem record_fields_follow_responses:
  "((Dispatched (TAKE_SNAPSHOT_END j p) \<in> set (emitted w1 (snd (takeSnapshot e w1)))) =
      (j = id' (createSnapshot e) \<and> (\<exists>r rs. script w1 = r # rs \<and> result r = Inr p))) \<and>
   (Dispatched (TAKE_SNAPSHOT_END j p) \<in> set (emitted w1 (snd (takeSnapshot e w1))) \<longrightarrow>
      attachedAfter SaveHeapSnapshot p (TAKE_SNAPSHOT_END j p)
        (emitted w1 (snd (takeSnapshot e w1)))) \<and>
   ((Dispatched (READ_SNAPSHOT_END j t) \<in> set (emitted w2 (snd (readSnapshot e i w2)))) =
      (j = i \<and>
       (\<exists>s. getSnapshot (store w2) i = Some s \<and>
          (assertions e \<longrightarrow> state s \<in> {SAVED, IMPORTING})) \<and>
       (\<exists>r1 r2 rs v. script w2 = r1 # r2 # rs \<and> result r1 = Inr v \<and> result r2 = Inr t))) \<and>
   (Dispatched (READ_SNAPSHOT_END j t) \<in> set (emitted w2 (snd (readSnapshot e i w2))) \<longrightarrow>
      (\<exists>s. getSnapshot (store w2) i = Some s \<and>
           attachedAfter (GetCreationTime (path s)) t (READ_SNAPSHOT_END j t)
             (emitted w2 (snd (readSnapshot e i w2))))) \<and>
   ((Dispatched (TAKE_CENSUS_END j b ivt f report') \<in>
       set (emitted w3 (snd (takeCensus e i w3)))) =
      (j = i \<and>
       (\<exists>s. getSnapshot (store w3) i = Some s \<and>
          (assertions e \<longrightarrow> state s \<in> {READ, SAVED_CENSUS}) \<and>
          \<not> censusIsUpToDate e (inverted (store w3)) (filter' (store w3))
              (breakdown (store w3)) (census s)) \<and>
       endOfCensus e i (store w3) (script w3) = Some (b, ivt, f, report'))) \<and>
   (Dispatched (TAKE_CENSUS_END j b ivt f report') \<in>
       set (emitted w3 (snd (takeCensus e i w3))) \<longrightarrow>
      j = i \<and>
      (\<exists>s. getSnapshot (store w3) i = Some s \<and>
           attachedAfter (TakeCensus (path s) b (censusOptions ivt f)) report'
             (TAKE_CENSUS_END j b ivt f report') (emitted w3 (snd (takeCensus e i w3))))) \<and>
   (mirrorsResponses (reducer e) \<longrightarrow>
      (Dispatched (TAKE_SNAPSHOT_END j p) \<in> set (emitted w1 (snd (takeSnapshot e w1))) \<longrightarrow>
         (\<exists>x. getSnapshot (store (snd (takeSnapshot e w1))) j = Some x \<and> path x = Some p)) \<and>
      (undisturbed (script w1) \<and>
       (\<forall>j p. Dispatched (TAKE_SNAPSHOT_END j p) \<notin> set (emitted w1 (snd (takeSnapshot e w1)))) \<longrightarrow>
         fieldsOf (store (snd (takeSnapshot e w1))) k =
           written k (TAKE_SNAPSHOT_START (createSnapshot e)) (fieldsOf (store w1) k)) \<and>
      (Dispatched (READ_SNAPSHOT_END j t) \<in> set (emitted w2 (snd (readSnapshot e i w2))) \<longrightarrow>
         (\<exists>x. getSnapshot (store (snd (readSnapshot e i w2))) j = Some x \<and>
              creationTime x = Some t)) \<and>
      (undisturbed (script w2) \<and>
       (\<forall>j t. Dispatched (READ_SNAPSHOT_END j t) \<notin> set (emitted w2 (snd (readSnapshot e i w2)))) \<longrightarrow>
         fieldsOf (store (snd (readSnapshot e i w2))) k = fieldsOf (store w2) k) \<and>
      (Dispatched (TAKE_CENSUS_END j b ivt f report') \<in>
          set (emitted w3 (snd (takeCensus e i w3))) \<longrightarrow>
         (\<exists>x. getSnapshot (store (snd (takeCensus e i w3))) j = Some x \<and>
              report x = Some report')) \<and>
      (undisturbed (script w3) \<and>
       (\<forall>j b ivt f rep. Dispatched (TAKE_CENSUS_END j b ivt f rep) \<notin>
          set (emitted w3 (snd (takeCensus e i w3)))) \<longrightarrow>
         fieldsOf (store (snd (takeCensus e i w3))) k = fieldsOf (store w3) k))"
proof -
  have c1: "(Dispatched (TAKE_SNAPSHOT_END j p) \<in> set (emitted w1 (snd (takeSnapshot e w1)))) =
      (j = id' (createSnapshot e) \<and> (\<exists>r rs. script w1 = r # rs \<and> result r = Inr p))"
    by (rule takeSnapshot_end_iff)
  have c2: "Dispatched (TAKE_SNAPSHOT_END j p) \<in> set (emitted w1 (snd (takeSnapshot e w1))) \<longrightarrow>
      attachedAfter SaveHeapSnapshot p (TAKE_SNAPSHOT_END j p)
        (emitted w1 (snd (takeSnapshot e w1)))"
  proof
    assume that: "Dispatched (TAKE_SNAPSHOT_END j p) \<in>
      set (emitted w1 (snd (takeSnapshot e w1)))"
    from that obtain r rs where j: "j = id' (createSnapshot e)"
      and "script w1 = r # rs" "result r = Inr p"
      using takeSnapshot_end_iff [of j p w1 e] by blast
    from takeSnapshot_resolved [OF this(2,3), of e] j
    show "attachedAfter SaveHeapSnapshot p (TAKE_SNAPSHOT_END j p)
        (emitted w1 (snd (takeSnapshot e w1)))"
      by (simp only: attachedAfterI)
  qed
  have c3: "(Dispatched (READ_SNAPSHOT_END j t) \<in> set (emitted w2 (snd (readSnapshot e i w2)))) =
      (j = i \<and>
       (\<exists>s. getSnapshot (store w2) i = Some s \<and>
          (assertions e \<longrightarrow> state s \<in> {SAVED, IMPORTING})) \<and>
       (\<exists>r1 r2 rs v. script w2 = r1 # r2 # rs \<and> result r1 = Inr v \<and> result r2 = Inr t))"
    (is "?l = ?r")
  proof
    assume ?l
    from readSnapshot_end_only [OF this] show ?r by blast
  next
    assume ?r
    then obtain s where s: "getSnapshot (store w2) i = Some s"
      "assertions e \<longrightarrow> state s \<in> {SAVED, IMPORTING}" by blast
    from readSnapshot_end_iff [OF s, of j t] \<open>?r\<close> show ?l by blast
  qed
  have c4: "Dispatched (READ_SNAPSHOT_END j t) \<in> set (emitted w2 (snd (readSnapshot e i w2))) \<longrightarrow>
      (\<exists>s. getSnapshot (store w2) i = Some s \<and>
           attachedAfter (GetCreationTime (path s)) t (READ_SNAPSHOT_END j t)
             (emitted w2 (snd (readSnapshot e i w2))))"
  proof
    assume that: "Dispatched (READ_SNAPSHOT_END j t) \<in>
      set (emitted w2 (snd (readSnapshot e i w2)))"
    from readSnapshot_end_only [OF that]
    obtain s r1 r2 rs v where s: "getSnapshot (store w2) i = Some s"
      and a: "assertions e \<longrightarrow> state s \<in> {SAVED, IMPORTING}" and j: "j = i"
      and sc: "script w2 = r1 # r2 # rs" "result r1 = Inr v" "result r2 = Inr t"
      by blast
    from readSnapshot_resolved [OF s a sc] j
    have "attachedAfter (GetCreationTime (path s)) t (READ_SNAPSHOT_END j t)
             (emitted w2 (snd (readSnapshot e i w2)))"
      by (simp only: attachedAfterI)
    with s show "\<exists>s. getSnapshot (store w2) i = Some s \<and>
           attachedAfter (GetCreationTime (path s)) t (READ_SNAPSHOT_END j t)
             (emitted w2 (snd (readSnapshot e i w2)))" by blast
  qed
  have c5: "(Dispatched (TAKE_CENSUS_END j b ivt f report') \<in>
       set (emitted w3 (snd (takeCensus e i w3)))) =
      (j = i \<and>
       (\<exists>s. getSnapshot (store w3) i = Some s \<and>
          (assertions e \<longrightarrow> state s \<in> {READ, SAVED_CENSUS}) \<and>
          \<not> censusIsUpToDate e (inverted (store w3)) (filter' (store w3))
              (breakdown (store w3)) (census s)) \<and>
       endOfCensus e i (store w3) (script w3) = Some (b, ivt, f, report'))"
    by (rule takeCensus_end_iff)
  have c6: "Dispatched (TAKE_CENSUS_END j b ivt f report') \<in>
       set (emitted w3 (snd (takeCensus e i w3))) \<longrightarrow>
      j = i \<and>
      (\<exists>s. getSnapshot (store w3) i = Some s \<and>
           attachedAfter (TakeCensus (path s) b (censusOptions ivt f)) report'
             (TAKE_CENSUS_END j b ivt f report') (emitted w3 (snd (takeCensus e i w3))))"
  proof
    assume a: "Dispatched (TAKE_CENSUS_END j b ivt f report') \<in>
       set (emitted w3 (snd (takeCensus e i w3)))"
    obtain out w' where run: "takeCensus e i w3 = (out, w')" by (cases "takeCensus e i w3")
    from takeCensus_cases [OF run] a run
    obtain s evs where s: "getSnapshot (store w3) i = Some s"
      and tr: "trace w' = trace w3 @ evs"
      and cr: "censusRun e i s (store w3) out evs"
      by (auto simp: emitted_def reportException_def)
    from a run tr have "Dispatched (TAKE_CENSUS_END j b ivt f report') \<in> set evs" by simp
    from censusRun_end [OF cr this]
    have j: "j = i" and ec: "endsCensus e i s (store w3) b ivt f report' evs" by simp_all
    from endsCensus_attached [OF ec] s j run tr
    show "j = i \<and>
      (\<exists>s. getSnapshot (store w3) i = Some s \<and>
           attachedAfter (TakeCensus (path s) b (censusOptions ivt f)) report'
             (TAKE_CENSUS_END j b ivt f report') (emitted w3 (snd (takeCensus e i w3))))"
      by auto
  qed
  have c7: "Dispatched (TAKE_SNAPSHOT_END j p) \<in> set (emitted w1 (snd (takeSnapshot e w1))) \<longrightarrow>
         (\<exists>x. getSnapshot (store (snd (takeSnapshot e w1))) j = Some x \<and> path x = Some p)"
    if m: "mirrorsResponses (reducer e)"
  proof
    assume a: "Dispatched (TAKE_SNAPSHOT_END j p) \<in>
      set (emitted w1 (snd (takeSnapshot e w1)))"
    from a obtain r rs where j: "j = id' (createSnapshot e)"
      and sc: "script w1 = r # rs" "result r = Inr p"
      using takeSnapshot_end_iff [of j p w1 e] by blast
    from takeSnapshot_path [OF m sc] j
    show "\<exists>x. getSnapshot (store (snd (takeSnapshot e w1))) j = Some x \<and> path x = Some p"
      by simp
  qed
  have c8: "undisturbed (script w1) \<and>
       (\<forall>j p. Dispatched (TAKE_SNAPSHOT_END j p) \<notin> set (emitted w1 (snd (takeSnapshot e w1)))) \<longrightarrow>
         fieldsOf (store (snd (takeSnapshot e w1))) k =
           written k (TAKE_SNAPSHOT_START (createSnapshot e)) (fieldsOf (store w1) k)"
    if m: "mirrorsResponses (reducer e)"
  proof
    assume un: "undisturbed (script w1) \<and>
       (\<forall>j p. Dispatched (TAKE_SNAPSHOT_END j p) \<notin> set (emitted w1 (snd (takeSnapshot e w1))))"
    then have u: "undisturbed (script w1)"
      and n: "\<forall>j p. Dispatched (TAKE_SNAPSHOT_END j p) \<notin>
                set (emitted w1 (snd (takeSnapshot e w1)))" by simp_all
    from n have "\<not> (\<exists>r rs p. script w1 = r # rs \<and> result r = Inr p)"
      using takeSnapshot_end_iff [of "id' (createSnapshot e)" _ w1 e] by blast
    from takeSnapshot_unwritten [OF m u this]
    show "fieldsOf (store (snd (takeSnapshot e w1))) k =
           written k (TAKE_SNAPSHOT_START (createSnapshot e)) (fieldsOf (store w1) k)" .
  qed
  have c9: "Dispatched (READ_SNAPSHOT_END j t) \<in> set (emitted w2 (snd (readSnapshot e i w2))) \<longrightarrow>
         (\<exists>x. getSnapshot (store (snd (readSnapshot e i w2))) j = Some x \<and>
              creationTime x = Some t)"
    if m: "mirrorsResponses (reducer e)"
  proof
    assume a: "Dispatched (READ_SNAPSHOT_END j t) \<in>
      set (emitted w2 (snd (readSnapshot e i w2)))"
    from readSnapshot_end_only [OF a]
    obtain s r1 r2 rs v where s: "getSnapshot (store w2) i = Some s"
      and ok: "assertions e \<longrightarrow> state s \<in> {SAVED, IMPORTING}" and j: "j = i"
      and sc: "script w2 = r1 # r2 # rs" "result r1 = Inr v" "result r2 = Inr t"
      by blast
    from readSnapshot_creationTime [OF m s ok sc] j
    show "\<exists>x. getSnapshot (store (snd (readSnapshot e i w2))) j = Some x \<and>
              creationTime x = Some t" by simp
  qed
  have c10: "undisturbed (script w2) \<and>
       (\<forall>j t. Dispatched (READ_SNAPSHOT_END j t) \<notin> set (emitted w2 (snd (readSnapshot e i w2)))) \<longrightarrow>
         fieldsOf (store (snd (readSnapshot e i w2))) k = fieldsOf (store w2) k"
    if m: "mirrorsResponses (reducer e)"
    using readSnapshot_unwritten [OF m, of w2 i k] by blast
  have c11: "Dispatched (TAKE_CENSUS_END j b ivt f report') \<in>
          set (emitted w3 (snd (takeCensus e i w3))) \<longrightarrow>
         (\<exists>x. getSnapshot (store (snd (takeCensus e i w3))) j = Some x \<and>
              report x = Some report')"
    if m: "mirrorsResponses (reducer e)"
  proof
    assume a: "Dispatched (TAKE_CENSUS_END j b ivt f report') \<in>
          set (emitted w3 (snd (takeCensus e i w3)))"
    from a obtain s where j: "j = i" and s: "getSnapshot (store w3) i = Some s"
      "assertions e \<longrightarrow> state s \<in> {READ, SAVED_CENSUS}"
      "\<not> censusIsUpToDate e (inverted (store w3)) (filter' (store w3))
              (breakdown (store w3)) (census s)"
      and en: "endOfCensus e i (store w3) (script w3) = Some (b, ivt, f, report')"
      using takeCensus_end_iff [of j b ivt f report' w3 e i] by blast
    from takeCensus_report [OF m s en] j
    show "\<exists>x. getSnapshot (store (snd (takeCensus e i w3))) j = Some x \<and>
              report x = Some report'" by simp
  qed
  have c12: "undisturbed (script w3) \<and>
       (\<forall>j b ivt f rep. Dispatched (TAKE_CENSUS_END j b ivt f rep) \<notin>
          set (emitted w3 (snd (takeCensus e i w3)))) \<longrightarrow>
         fieldsOf (store (snd (takeCensus e i w3))) k = fieldsOf (store w3) k"
    if m: "mirrorsResponses (reducer e)"
    using takeCensus_unwritten [OF m, of w3 i k] by blast
  have fs: "mirrorsResponses (reducer e) \<longrightarrow>
      (Dispatched (TAKE_SNAPSHOT_END j p) \<in> set (emitted w1 (snd (takeSnapshot e w1))) \<longrightarrow>
         (\<exists>x. getSnapshot (store (snd (takeSnapshot e w1))) j = Some x \<and> path x = Some p)) \<and>
      (undisturbed (script w1) \<and>
       (\<forall>j p. Dispatched (TAKE_SNAPSHOT_END j p) \<notin> set (emitted w1 (snd (takeSnapshot e w1)))) \<longrightarrow>
         fieldsOf (store (snd (takeSnapshot e w1))) k =
           written k (TAKE_SNAPSHOT_START (createSnapshot e)) (fieldsOf (store w1) k)) \<and>
      (Dispatched (READ_SNAPSHOT_END j t) \<in> set (emitted w2 (snd (readSnapshot e i w2))) \<longrightarrow>
         (\<exists>x. getSnapshot (store (snd (readSnapshot e i w2))) j = Some x \<and>
              creationTime x = Some t)) \<and>
      (undisturbed (script w2) \<and>
       (\<forall>j t. Dispatched (READ_SNAPSHOT_END j t) \<notin> set (emitted w2 (snd (readSnapshot e i w2)))) \<longrightarrow>
         fieldsOf (store (snd (readSnapshot e i w2))) k = fieldsOf (store w2) k) \<and>
      (Dispatched (TAKE_CENSUS_END j b ivt f report') \<in>
          set (emitted w3 (snd (takeCensus e i w3))) \<longrightarrow>
         (\<exists>x. getSnapshot (store (snd (takeCensus e i w3))) j = Some x \<and>
              report x = Some report')) \<and>
      (undisturbed (script w3) \<and>
       (\<forall>j b ivt f rep. Dispatched (TAKE_CENSUS_END j b ivt f rep) \<notin>
          set (emitted w3 (snd (takeCensus e i w3)))) \<longrightarrow>
         fieldsOf (store (snd (takeCensus e i w3))) k = fieldsOf (store w3) k)"
  proof
    assume m: "mirrorsResponses (reducer e)"
    show "(Dispatched (TAKE_SNAPSHOT_END j p) \<in> set (emitted w1 (snd (takeSnapshot e w1))) \<longrightarrow>
         (\<exists>x. getSnapshot (store (snd (takeSnapshot e w1))) j = Some x \<and> path x = Some p)) \<and>
      (undisturbed (script w1) \<and>
       (\<forall>j p. Dispatched (TAKE_SNAPSHOT_END j p) \<notin> set (emitted w1 (snd (takeSnapshot e w1)))) \<longrightarrow>
         fieldsOf (store (snd (takeSnapshot e w1))) k =
           written k (TAKE_SNAPSHOT_START (createSnapshot e)) (fieldsOf (store w1) k)) \<and>
      (Dispatched (READ_SNAPSHOT_END j t) \<in> set (emitted w2 (snd (readSnapshot e i w2))) \<longrightarrow>
         (\<exists>x. getSnapshot (store (snd (readSnapshot e i w2))) j = Some x \<and>
              creationTime x = Some t)) \<and>
      (undisturbed (script w2) \<and>
       (\<forall>j t. Dispatched (READ_SNAPSHOT_END j t) \<notin> set (emitted w2 (snd (readSnapshot e i w2)))) \<longrightarrow>
         fieldsOf (store (snd (readSnapshot e i w2))) k = fieldsOf (store w2) k) \<and>
      (Dispatched (TAKE_CENSUS_END j b ivt f report') \<in>
          set (emitted w3 (snd (takeCensus e i w3))) \<longrightarrow>
         (\<exists>x. getSnapshot (store (snd (takeCensus e i w3))) j = Some x \<and>
              report x = Some report')) \<and>
      (undisturbed (script w3) \<and>
       (\<forall>j b ivt f rep. Dispatched (TAKE_CENSUS_END j b ivt f rep) \<notin>
          set (emitted w3 (snd (takeCensus e i w3)))) \<longrightarrow>
         fieldsOf (store (snd (takeCensus e i w3))) k = fieldsOf (store w3) k)"
      by (rule conjI [OF c7 [OF m] conjI [OF c8 [OF m] conjI [OF c9 [OF m]
            conjI [OF c10 [OF m] conjI [OF c11 [OF m] c12 [OF m]]]]]])
  qed
  show ?thesis
    by (rule conjI [OF c1 conjI [OF c2 conjI [OF c3 conjI [OF c4 conjI [OF c5
          conjI [OF c6 fs]]]]]])
qed

text \<open>
  On concrete runs, with the sample reducer, which writes what the end actions carry:
  a save, a read and a census (taken twice, after a click on \<open>invert\<close>) whose calls
  resolve, and then the three runs in which a call is rejected.
\<close>

theorem record_fields_witness:
  "mirrorsResponses (reducer sampleEnv) \<and>
   Dispatched (TAKE_SNAPSHOT_END 1 ''/tmp/1.fxsnapshot'') \<in>
     set (emitted savingWorld (snd (takeSnapshot sampleEnv savingWorld))) \<and>
   attachedAfter SaveHeapSnapshot ''/tmp/1.fxsnapshot''
     (TAKE_SNAPSHOT_END 1 ''/tmp/1.fxsnapshot'')
     (emitted savingWorld (snd (takeSnapshot sampleEnv savingWorld))) \<and>
   (\<exists>x. getSnapshot (store (snd (takeSnapshot sampleEnv savingWorld))) 1 = Some x \<and>
        path x = Some ''/tmp/1.fxsnapshot'') \<and>
   Dispatched (READ_SNAPSHOT_END 1 ''1446508800'') \<in>
     set (emitted savedWorld (snd (readSnapshot sampleEnv 1 savedWorld))) \<and>
   (\<exists>s. getSnapshot (store savedWorld) 1 = Some s \<and>
      attachedAfter (GetCreationTime (path s)) ''1446508800''
        (READ_SNAPSHOT_END 1 ''1446508800'')
        (emitted savedWorld (snd (readSnapshot sampleEnv 1 savedWorld)))) \<and>
   (\<exists>x. getSnapshot (store (snd (readSnapshot sampleEnv 1 savedWorld))) 1 = Some x \<and>
        creationTime x = Some ''1446508800'') \<and>
   endOfCensus sampleEnv 1 (store censusWorld) (script censusWorld) =
     Some (''coarseType'', True, None, ''report2'') \<and>
   Dispatched (TAKE_CENSUS_END 1 ''coarseType'' True None ''report2'') \<in>
     set (emitted censusWorld (snd (takeCensus sampleEnv 1 censusWorld))) \<and>
   (\<exists>s. getSnapshot (store censusWorld) 1 = Some s \<and>
      attachedAfter (TakeCensus (path s) ''coarseType'' (censusOptions True None)) ''report2''
        (TAKE_CENSUS_END 1 ''coarseType'' True None ''report2'')
        (emitted censusWorld (snd (takeCensus sampleEnv 1 censusWorld)))) \<and>
   (\<exists>x. getSnapshot (store (snd (takeCensus sampleEnv 1 censusWorld))) 1 = Some x \<and>
        report x = Some ''report2'') \<and>
   undisturbed (script failingSave) \<and>
   (\<forall>j p. Dispatched (TAKE_SNAPSHOT_END j p) \<notin>
      set (emitted failingSave (snd (takeSnapshot sampleEnv failingSave)))) \<and>
   fieldsOf (store (snd (takeSnapshot sampleEnv failingSave))) 1 =
     written 1 (TAKE_SNAPSHOT_START (createSnapshot sampleEnv)) (fieldsOf (store failingSave) 1) \<and>
   undisturbed (script failingRead) \<and>
   (\<forall>j t. Dispatched (READ_SNAPSHOT_END j t) \<notin>
      set (emitted failingRead (snd (readSnapshot sampleEnv 1 failingRead)))) \<and>
   fieldsOf (store (snd (readSnapshot sampleEnv 1 failingRead))) 1 =
     fieldsOf (store failingRead) 1 \<and>
   undisturbed (script failingCensus) \<and>
   (\<forall>j b ivt f rep. Dispatched (TAKE_CENSUS_END j b ivt f rep) \<notin>
      set (emitted failingCensus (snd (takeCensus sampleEnv 1 failingCensus)))) \<and>
   fieldsOf (store (snd (takeCensus sampleEnv 1 failingCensus))) 1 =
     fieldsOf (store failingCensus) 1"
proof -
  note A = record_fields_follow_responses
    [where j = 1 and p = "''/tmp/1.fxsnapshot''" and ?w1.0 = savingWorld and e = sampleEnv
       and ?w2.0 = savedWorld and i = 1 and t = "''1446508800''"
       and ?w3.0 = censusWorld and b = "''coarseType''" and ivt = True and f = None
       and report' = "''report2''" and k = 1]
  note B = record_fields_follow_responses
    [where j = 1 and p = "''/tmp/1.fxsnapshot''" and ?w1.0 = failingSave and e = sampleEnv
       and ?w2.0 = failingRead and i = 1 and t = "''1446508800''"
       and ?w3.0 = failingCensus and b = "''coarseType''" and ivt = True and f = None
       and report' = "''report2''" and k = 1]
  have m: "mirrorsResponses (reducer sampleEnv)" by (rule sampleEnv_mirrors)
  have h1: "Dispatched (TAKE_SNAPSHOT_END 1 ''/tmp/1.fxsnapshot'') \<in>
     set (emitted savingWorld (snd (takeSnapshot sampleEnv savingWorld)))"
    by code_simp
  have h3: "Dispatched (READ_SNAPSHOT_END 1 ''1446508800'') \<in>
     set (emitted savedWorld (snd (readSnapshot sampleEnv 1 savedWorld)))"
    by code_simp
  have en: "endOfCensus sampleEnv 1 (store censusWorld) (script censusWorld) =
     Some (''coarseType'', True, None, ''report2'')"
    by code_simp
  have h5: "Dispatched (TAKE_CENSUS_END 1 ''coarseType'' True None ''report2'') \<in>
     set (emitted censusWorld (snd (takeCensus sampleEnv 1 censusWorld)))"
    by code_simp
  have u1: "undisturbed (script failingSave)" by code_simp
  have u2: "undisturbed (script failingRead)" by code_simp
  have u3: "undisturbed (script failingCensus)" by code_simp
  have n1: "\<forall>j p. Dispatched (TAKE_SNAPSHOT_END j p) \<notin>
      set (emitted failingSave (snd (takeSnapshot sampleEnv failingSave)))"
  proof -
    have "script failingSave = [rejected ''boom'']"
      by (simp add: failingSave_def worldOf_def)
    then show ?thesis by (simp add: takeSnapshot_end_iff rejected_def)
  qed
  have n2: "\<forall>j t. Dispatched (READ_SNAPSHOT_END j t) \<notin>
      set (emitted failingRead (snd (readSnapshot sampleEnv 1 failingRead)))"
  proof -
    have "script failingRead = [resolved ''ok'', rejected ''boom'']"
      by (simp add: failingRead_def worldOf_def)
    then show ?thesis
      using readSnapshot_end_only [of _ _ failingRead sampleEnv 1]
      by (auto simp: rejected_def)
  qed
  have "endOfCensus sampleEnv 1 (store failingCensus) (script failingCensus) = None"
    by code_simp
  then have n3: "\<forall>j b ivt f rep. Dispatched (TAKE_CENSUS_END j b ivt f rep) \<notin>
      set (emitted failingCensus (snd (takeCensus sampleEnv 1 failingCensus)))"
    by (simp add: takeCensus_end_iff)
  note a2 = A [THEN conjunct2, THEN conjunct1, THEN mp, OF h1]
  note a4 = A [THEN conjunct2, THEN conjunct2, THEN conjunct2, THEN conjunct1, THEN mp, OF h3]
  note a6 = A [THEN conjunct2, THEN conjunct2, THEN conjunct2, THEN conjunct2, THEN conjunct2,
    THEN conjunct1, THEN mp, OF h5, THEN conjunct2]
  note afs = A [THEN conjunct2, THEN conjunct2, THEN conjunct2, THEN conjunct2, THEN conjunct2,
    THEN conjunct2, THEN mp, OF m]
  note a7 = afs [THEN conjunct1, THEN mp, OF h1]
  note a9 = afs [THEN conjunct2, THEN conjunct2, THEN conjunct1, THEN mp, OF h3]
  note a11 = afs [THEN conjunct2, THEN conjunct2, THEN conjunct2, THEN conjunct2,
    THEN conjunct1, THEN mp, OF h5]
  note bfs = B [THEN conjunct2, THEN conjunct2, THEN conjunct2, THEN conjunct2, THEN conjunct2,
    THEN conjunct2, THEN mp, OF m]
  note b8 = bfs [THEN conjunct2, THEN conjunct1, THEN mp, OF conjI [OF u1 n1]]
  note b10 = bfs [THEN conjunct2, THEN conjunct2, THEN conjunct2, THEN conjunct1, THEN mp,
    OF conjI [OF u2 n2]]
  note b12 = bfs [THEN conjunct2, THEN conjunct2, THEN conjunct2, THEN conjunct2,
    THEN conjunct2, THEN mp, OF conjI [OF u3 n3]]
  from m h1 a2 a7 h3 a4 a9 en h5 a6 a11 u1 n1 b8 u2 n2 b10 u3 n3 b12
  show ?thesis by - (intro conjI; assumption)
qed

text \<open>
  C5, as the code has it. After \<open>startListeners\<close>, whatever events have been fired
  since: an event that makes the controller refresh its list (ask the front for the
  players of a node) is \<open>new-node-front\<close> of the selection or \<open>select\<close> of the sidebar
  or of the toolbox; and a tick of a timer runs no handler at all, since the
  controller registers none.
\<close>

theorem refresh_only_on_selection_or_visibility_events:
  assumes "reachable c"
  shows "fire h Timer name changes c = c \<and>
         (refreshed c (fire h em name changes c) \<longrightarrow>
            (em, name) \<in> {(Selection, ''new-node-front''), (Sidebar, ''select''),
                           (Toolbox, ''select'')})"
proof
  have "handlersFor Timer name c = []"
    using reachable_allowed [OF assms]
    by (auto simp: handlersFor_def allowedListeners_def filter_empty_conv)
  then show "fire h Timer name changes c = c" by (simp add: fire_def)
next
  show "refreshed c (fire h em name changes c) \<longrightarrow>
            (em, name) \<in> {(Selection, ''new-node-front''), (Sidebar, ''select''),
                           (Toolbox, ''select'')}"
  proof
    assume r: "refreshed c (fire h em name changes c)"
    have "\<not> (\<forall>x \<in> set (handlersFor em name c). x = OnAnimationMutations)"
    proof
      assume "\<forall>x \<in> set (handlersFor em name c). x = OnAnimationMutations"
      from quietly_not_refreshed [OF quietly_fold [OF this, of c h changes]] r
      show False by (simp add: fire_def)
    qed
    then obtain x where "x \<in> set (handlersFor em name c)" "x \<noteq> OnAnimationMutations"
      by blast
    then have "(em, name, x) \<in> set (registered c)"
      by (auto simp: handlersFor_def)
    with reachable_allowed [OF assms] \<open>x \<noteq> OnAnimationMutations\<close>
    show "(em, name) \<in> {(Selection, ''new-node-front''), (Sidebar, ''select''),
                           (Toolbox, ''select'')}"
      by (auto simp: allowedListeners_def)
  qed
qed

theorem refresh_witness:
  "reachable (startListeners freshController) \<and>
   refreshed (startListeners freshController)
     (fire visibleHost Selection ''new-node-front'' [] (startListeners freshController)) \<and>
   (Selection, ''new-node-front'') \<in>
     {(Selection, ''new-node-front''), (Sidebar, ''select''), (Toolbox, ''select'')} \<and>
   fire visibleHost Timer ''new-node-front'' [] (startListeners freshController) =
     startListeners freshController"
proof -
  have r: "reachable (startListeners freshController)"
    by (rule reachable.started) (simp_all add: freshController_def)
  have f: "refreshed (startListeners freshController)
     (fire visibleHost Selection ''new-node-front'' [] (startListeners freshController))"
    by code_simp
  from r f show ?thesis
    using refresh_only_on_selection_or_visibility_events
      [OF r, where h = visibleHost and name = "''new-node-front''" and changes = "[]"
         and em = Selection]
    by blast
qed

text \<open>
  As the claim has it, every refresh is initiated by a periodic poll. This one is
  initiated by the selection of a node.
\<close>

theorem refresh_on_selection_counterexample:
  "refreshed (startListeners freshController)
     (fire visibleHost Selection ''new-node-front'' [] (startListeners freshController)) \<and>
   Selection \<noteq> Timer"
  by code_simp


text \<open>
  C6, as the code has it. Every run of \<open>takeSnapshot\<close>, \<open>readSnapshot\<close>,
  \<open>takeCensus\<close>, \<open>selectSnapshotAndRefresh\<close> and \<open>refreshSelectedCensus\<close> is orderly:
  the store it leaves is the store it found after the actions of its trace have gone
  through the reducer, in order, so the task changes the store through \<open>dispatch\<close>
  alone; and besides calls on the RPC objects and dispatches, its only effects are
  calls of \<open>reportException\<close>, each of them either right after the rejection of a call
  of the run, with the error of that rejection, or made by a failed assertion, as the
  last event of the run. \<open>takeSnapshot\<close> asserts nothing; in the other four tasks the
  report of a failed assertion is followed by nothing but the throw of the error that
  it reports. And each task reads nothing but the state and what its calls resolve
  with: from the same state, with the same responses to come, it does the same
  whatever happened before.
\<close>

theorem effects_are_calls_dispatches_or_reports:
  "orderly e w1 (snd (takeSnapshot e w1)) (emitted w1 (snd (takeSnapshot e w1))) \<and>
   orderly e w2 (snd (readSnapshot e i w2)) (emitted w2 (snd (readSnapshot e i w2))) \<and>
   orderly e w3 (snd (takeCensus e i w3)) (emitted w3 (snd (takeCensus e i w3))) \<and>
   orderly e w4 (snd (selectSnapshotAndRefresh e i w4))
     (emitted w4 (snd (selectSnapshotAndRefresh e i w4))) \<and>
   orderly e w5 (snd (refreshSelectedCensus e w5)) (emitted w5 (snd (refreshSelectedCensus e w5))) \<and>
   Reported ''DevToolsUtils.assert'' error \<notin> set (emitted w1 (snd (takeSnapshot e w1))) \<and>
   (Reported ''DevToolsUtils.assert'' error \<in> set (emitted w2 (snd (readSnapshot e i w2))) \<longrightarrow>
      fst (readSnapshot e i w2) = Threw error) \<and>
   (Reported ''DevToolsUtils.assert'' error \<in> set (emitted w3 (snd (takeCensus e i w3))) \<longrightarrow>
      fst (takeCensus e i w3) = Threw error) \<and>
   (Reported ''DevToolsUtils.assert'' error \<in>
      set (emitted w4 (snd (selectSnapshotAndRefresh e i w4))) \<longrightarrow>
      fst (selectSnapshotAndRefresh e i w4) = Threw error) \<and>
   (Reported ''DevToolsUtils.assert'' error \<in>
      set (emitted w5 (snd (refreshSelectedCensus e w5))) \<longrightarrow>
      fst (refreshSelectedCensus e w5) = Threw error) \<and>
   readsStateOnly (takeSnapshot e) \<and> readsStateOnly (readSnapshot e i) \<and>
   readsStateOnly (takeCensus e i) \<and> readsStateOnly (selectSnapshotAndRefresh e i) \<and>
   readsStateOnly (refreshSelectedCensus e)"
proof -
  have o1: "orderly e w1 (snd (takeSnapshot e w1)) (emitted w1 (snd (takeSnapshot e w1)))"
    using takeSnapshot_orderly [of e w1] by (blast intro: orderly_is_emitted)
  have o2: "orderly e w2 (snd (readSnapshot e i w2)) (emitted w2 (snd (readSnapshot e i w2)))"
    using readSnapshot_orderly [of e w2 i] by (blast intro: orderly_is_emitted)
  have o3: "orderly e w3 (snd (takeCensus e i w3)) (emitted w3 (snd (takeCensus e i w3)))"
    using takeCensus_orderly [of e w3 i] by (blast intro: orderly_is_emitted)
  have o4: "orderly e w4 (snd (selectSnapshotAndRefresh e i w4))
       (emitted w4 (snd (selectSnapshotAndRefresh e i w4)))"
    using selectSnapshotAndRefresh_orderly [of e w4 i] by (rule orderly_is_emitted)
  have o5: "orderly e w5 (snd (refreshSelectedCensus e w5))
       (emitted w5 (snd (refreshSelectedCensus e w5)))"
    using refreshSelectedCensus_orderly [of e w5] by (rule orderly_is_emitted)
  have a1: "Reported ''DevToolsUtils.assert'' error \<notin>
      set (emitted w1 (snd (takeSnapshot e w1)))"
    by (rule takeSnapshot_no_assertion)
  have a2: "Reported ''DevToolsUtils.assert'' error \<in>
      set (emitted w2 (snd (readSnapshot e i w2))) \<longrightarrow>
      fst (readSnapshot e i w2) = Threw error"
    by (rule impI) (rule readSnapshot_assertion)
  have a3: "Reported ''DevToolsUtils.assert'' error \<in>
      set (emitted w3 (snd (takeCensus e i w3))) \<longrightarrow>
      fst (takeCensus e i w3) = Threw error"
    by (rule impI) (rule takeCensus_assertion [THEN conjunct1])
  have a4: "Reported ''DevToolsUtils.assert'' error \<in>
      set (emitted w4 (snd (selectSnapshotAndRefresh e i w4))) \<longrightarrow>
      fst (selectSnapshotAndRefresh e i w4) = Threw error"
    by (rule impI) (rule selectSnapshotAndRefresh_assertion)
  have a5: "Reported ''DevToolsUtils.assert'' error \<in>
      set (emitted w5 (snd (refreshSelectedCensus e w5))) \<longrightarrow>
      fst (refreshSelectedCensus e w5) = Threw error"
    by (rule impI) (rule refreshSelectedCensus_assertion)
  note r = takeSnapshot_reads [of e] readSnapshot_reads [of e i] takeCensus_reads [of e i]
    selectSnapshotAndRefresh_reads [of e i] refreshSelectedCensus_reads [of e]
  from o1 o2 o3 o4 o5 a1 a2 a3 a4 a5 r show ?thesis by - (intro conjI; assumption)
qed

text \<open>
  On concrete runs: a save that is rejected, where the report comes right after the
  rejection, and the reading of a snapshot that has been read already, where the
  assertion fails, the failure is reported and the task throws. The same reading in a
  world with another past does the same.
\<close>

theorem effects_witness:
  "emitted failingSave (snd (takeSnapshot sampleEnv failingSave)) =
     [Dispatched TOGGLE_DIFFING, Dispatched (TAKE_SNAPSHOT_START sampleSnapshot),
      Dispatched (SELECT_SNAPSHOT 1), Called SaveHeapSnapshot, Settled (Inl ''boom''),
      Reported ''takeSnapshot'' ''boom'', Dispatched (SNAPSHOT_ERROR 1 ''boom'')] \<and>
   explained (emitted failingSave (snd (takeSnapshot sampleEnv failingSave))) \<and>
   store (snd (takeSnapshot sampleEnv failingSave)) =
     applyAll sampleEnv
       (actionsOf (emitted failingSave (snd (takeSnapshot sampleEnv failingSave))))
       (store failingSave) \<and>
   Reported ''DevToolsUtils.assert'' ''Assertion failure: Should only read a snapshot once'' \<in>
     set (emitted readWorld (snd (readSnapshot sampleEnv 1 readWorld))) \<and>
   fst (readSnapshot sampleEnv 1 readWorld) =
     Threw ''Assertion failure: Should only read a snapshot once'' \<and>
   store (readWorld\<lparr>trace := [Called SaveHeapSnapshot]\<rparr>) = store readWorld \<and>
   script (readWorld\<lparr>trace := [Called SaveHeapSnapshot]\<rparr>) = script readWorld \<and>
   emitted (readWorld\<lparr>trace := [Called SaveHeapSnapshot]\<rparr>)
     (snd (readSnapshot sampleEnv 1 (readWorld\<lparr>trace := [Called SaveHeapSnapshot]\<rparr>))) =
     emitted readWorld (snd (readSnapshot sampleEnv 1 readWorld))"
proof -
  note A = effects_are_calls_dispatches_or_reports
    [where e = sampleEnv and ?w1.0 = failingSave and ?w2.0 = readWorld and i = 1
       and ?w3.0 = readWorld and ?w4.0 = readWorld and ?w5.0 = readWorld
       and error = "''Assertion failure: Should only read a snapshot once''"]
  have em: "emitted failingSave (snd (takeSnapshot sampleEnv failingSave)) =
     [Dispatched TOGGLE_DIFFING, Dispatched (TAKE_SNAPSHOT_START sampleSnapshot),
      Dispatched (SELECT_SNAPSHOT 1), Called SaveHeapSnapshot, Settled (Inl ''boom''),
      Reported ''takeSnapshot'' ''boom'', Dispatched (SNAPSHOT_ERROR 1 ''boom'')]"
    by code_simp
  have h: "Reported ''DevToolsUtils.assert'' ''Assertion failure: Should only read a snapshot once'' \<in>
     set (emitted readWorld (snd (readSnapshot sampleEnv 1 readWorld)))"
    by code_simp
  have s: "store (readWorld\<lparr>trace := [Called SaveHeapSnapshot]\<rparr>) = store readWorld \<and>
    script (readWorld\<lparr>trace := [Called SaveHeapSnapshot]\<rparr>) = script readWorld"
    by simp
  note o = A [THEN conjunct1]
  note t = A [THEN conjunct2, THEN conjunct2, THEN conjunct2, THEN conjunct2, THEN conjunct2,
    THEN conjunct2, THEN conjunct1, THEN mp, OF h]
  note rs = A [THEN conjunct2, THEN conjunct2, THEN conjunct2, THEN conjunct2, THEN conjunct2,
    THEN conjunct2, THEN conjunct2, THEN conjunct2, THEN conjunct2, THEN conjunct2,
    THEN conjunct2, THEN conjunct1]
  note rd = rs [unfolded readsStateOnly_def, rule_format,
    of "readWorld\<lparr>trace := [Called SaveHeapSnapshot]\<rparr>" readWorld, OF s,
    THEN conjunct2, THEN conjunct1]
  note ex = o [unfolded orderly_def, THEN conjunct2, THEN conjunct2]
  note st = o [unfolded orderly_def, THEN conjunct2, THEN conjunct1]
  from em ex st h t s [THEN conjunct1] s [THEN conjunct2] rd
  show ?thesis by - (intro conjI; assumption)
qed

text \<open>
  As the claim has it, every effect is a call on an RPC object or a dispatch. The run
  of \<open>takeSnapshot\<close> whose save is rejected has one more, \<open>reportException\<close>, and so
  has the reading of a snapshot that has been read already.
\<close>

theorem effects_counterexample:
  "\<not> list_all rpcOrDispatch (emitted failingSave (snd (takeSnapshot sampleEnv failingSave))) \<and>
   \<not> list_all rpcOrDispatch (emitted readWorld (snd (readSnapshot sampleEnv 1 readWorld)))"
  by code_simp

text \<open>
  C8. \<open>takeSnapshot\<close> returns the id of the new snapshot exactly when
  \<open>front.saveHeapSnapshot()\<close> resolves and \<open>null\<close> exactly when it rejects; whatever
  happens to the call, the run begins by announcing the snapshot that
  \<open>createSnapshot()\<close> made with \<open>TAKE_SNAPSHOT_START\<close> and selecting it, and only
  then issues the call.
\<close>

theorem takeSnapshot_returns_id_or_null:
  "(fst (takeSnapshot e w) = Returned (Some (id' (createSnapshot e))) \<longleftrightarrow>
      (\<exists>r rs path'. script w = r # rs \<and> result r = Inr path')) \<and>
   (fst (takeSnapshot e w) = Returned None \<longleftrightarrow>
      (\<exists>r rs error. script w = r # rs \<and> result r = Inl error)) \<and>
   (\<exists>rest. emitted w (snd (takeSnapshot e w)) =
      (if diffing (store w) then [Dispatched toggleDiffing] else []) @
      [Dispatched (TAKE_SNAPSHOT_START (createSnapshot e)),
       Dispatched (SELECT_SNAPSHOT (id' (createSnapshot e))),
       Called SaveHeapSnapshot] @ rest)"
  by (auto simp add: takeSnapshot_def emitted_def dispatch_def remote_def reportException_def
        Let_def selectSnapshot_def split: list.splits sum.splits)


text \<open>
  C9. For a snapshot in state \<open>READ\<close> or \<open>SAVED_CENSUS\<close>: when its census is up to
  date, \<open>takeCensus\<close> returns in the world it found (no action, no call, the same
  state). Otherwise what the run does is fixed by the state and by the responses to
  come, turn by turn, as \<open>censusTurns\<close> has it. When the first call resolves and the
  values used are still the state's, the task dispatches \<open>TAKE_CENSUS_END\<close> with them
  and the report, and returns; when they are not, the loop goes round from the world
  the call left, with the responses that remain; with no response at all the task
  stays suspended. \<open>TAKE_CENSUS_END\<close> is dispatched exactly when the responses end the
  census (\<open>endOfCensus\<close>: the first response that resolves while the values are
  current, none before it being a rejection), only at the end of a turn whose values
  are the state's current ones, and it carries them and the report of that turn. And
  one of three things happens: the census ends and the task returns; or a call is
  rejected and the task returns; or every response has been a resolution after which
  the values had changed, and the task is suspended at the call that follows the last.
\<close>

theorem takeCensus_idempotent_or_repeats:
  assumes "getSnapshot (store w) i = Some s" and "state s \<in> {READ, SAVED_CENSUS}"
  shows "(censusIsUpToDate e (inverted (store w)) (filter' (store w)) (breakdown (store w))
            (census s) \<longrightarrow>
          takeCensus e i w = (Returned (), w)) \<and>
         (\<not> censusIsUpToDate e (inverted (store w)) (filter' (store w)) (breakdown (store w))
              (census s) \<longrightarrow>
          censusTurns e i s (store w) (script w) (emitted w (snd (takeCensus e i w)))
            (fst (takeCensus e i w)) \<and>
          (script w = [] \<longrightarrow> fst (takeCensus e i w) = Suspended) \<and>
          (script w = r # rs \<and> result r = Inr report' \<and>
           stillCurrent e (store w) (afterFirstTurn e i r (store w)) \<longrightarrow>
             takeCensus e i w =
               (Returned (),
                dispatch e
                  (TAKE_CENSUS_END i (breakdown (store w)) (inverted (store w))
                     (filter' (store w)) report')
                  (afterCensusCall e i s r rs w))) \<and>
          (script w = r # rs \<and> result r = Inr report' \<and>
           \<not> stillCurrent e (store w) (afterFirstTurn e i r (store w)) \<longrightarrow>
             takeCensus e i w = censusLoop e i s (afterCensusCall e i s r rs w)) \<and>
          ((Dispatched (TAKE_CENSUS_END j b ivt f report') \<in>
              set (emitted w (snd (takeCensus e i w)))) =
           (j = i \<and> endOfCensus e i (store w) (script w) = Some (b, ivt, f, report'))) \<and>
          (Dispatched (TAKE_CENSUS_END j b ivt f report') \<in>
             set (emitted w (snd (takeCensus e i w))) \<longrightarrow>
           fst (takeCensus e i w) = Returned () \<and>
           endsCensus e i s (store w) b ivt f report' (emitted w (snd (takeCensus e i w)))) \<and>
          ((\<exists>b ivt f rep.
              Dispatched (TAKE_CENSUS_END i b ivt f rep) \<in>
                set (emitted w (snd (takeCensus e i w))) \<and>
              fst (takeCensus e i w) = Returned ()) \<or>
           (\<exists>error.
              Settled (Inl error) \<in> set (emitted w (snd (takeCensus e i w))) \<and>
              endOfCensus e i (store w) (script w) = None \<and>
              fst (takeCensus e i w) = Returned ()) \<or>
           (fst (takeCensus e i w) = Suspended \<and>
            endOfCensus e i (store w) (script w) = None \<and>
            (\<forall>x \<in> set (script w). \<exists>v. result x = Inr v))))"
proof (intro conjI impI)
  assume "censusIsUpToDate e (inverted (store w)) (filter' (store w)) (breakdown (store w))
            (census s)"
  with assms show "takeCensus e i w = (Returned (), w)"
    by (auto simp: takeCensus_def)
next
  assume n: "\<not> censusIsUpToDate e (inverted (store w)) (filter' (store w)) (breakdown (store w))
            (census s)"
  from assms(2) have ok: "assertions e \<longrightarrow> state s \<in> {READ, SAVED_CENSUS}" by simp
  note tc = takeCensus_loop [OF assms(1) ok n]
  note turns = takeCensus_turns [OF assms(1) ok n]
  obtain out w' where run: "censusLoop e i s w = (out, w')" by (cases "censusLoop e i s w")
  from censusLoop_run [OF run] obtain evs where tr: "trace w' = trace w @ evs"
    and cr: "censusRun e i s (store w) out evs" by blast
  from turns
  show "censusTurns e i s (store w) (script w) (emitted w (snd (takeCensus e i w)))
            (fst (takeCensus e i w))" .
  {
    assume "script w = []"
    then show "fst (takeCensus e i w) = Suspended"
      using tc censusLoop_Nil [of w e i s] by simp
  }
  {
    assume "script w = r # rs \<and> result r = Inr report' \<and>
           stillCurrent e (store w) (afterFirstTurn e i r (store w))"
    then show "takeCensus e i w =
               (Returned (),
                dispatch e
                  (TAKE_CENSUS_END i (breakdown (store w)) (inverted (store w))
                     (filter' (store w)) report')
                  (afterCensusCall e i s r rs w))"
      using tc censusLoop_current [of w r rs report' e i s] by simp
  }
  {
    assume "script w = r # rs \<and> result r = Inr report' \<and>
           \<not> stillCurrent e (store w) (afterFirstTurn e i r (store w))"
    then show "takeCensus e i w = censusLoop e i s (afterCensusCall e i s r rs w)"
      using tc censusLoop_again [of w r rs report' e i s] by simp
  }
  show "(Dispatched (TAKE_CENSUS_END j b ivt f report') \<in>
              set (emitted w (snd (takeCensus e i w)))) =
           (j = i \<and> endOfCensus e i (store w) (script w) = Some (b, ivt, f, report'))"
    by (rule censusTurns_end_iff [OF turns])
  {
    assume "Dispatched (TAKE_CENSUS_END j b ivt f report') \<in>
             set (emitted w (snd (takeCensus e i w)))"
    with tc run tr have "Dispatched (TAKE_CENSUS_END j b ivt f report') \<in> set evs" by simp
    from censusRun_end [OF cr this] tc run tr
    show "fst (takeCensus e i w) = Returned ()"
      and "endsCensus e i s (store w) b ivt f report' (emitted w (snd (takeCensus e i w)))"
      by simp_all
  }
  from censusTurns_outcome [OF turns]
  show "(\<exists>b ivt f rep.
              Dispatched (TAKE_CENSUS_END i b ivt f rep) \<in>
                set (emitted w (snd (takeCensus e i w))) \<and>
              fst (takeCensus e i w) = Returned ()) \<or>
           (\<exists>error.
              Settled (Inl error) \<in> set (emitted w (snd (takeCensus e i w))) \<and>
              endOfCensus e i (store w) (script w) = None \<and>
              fst (takeCensus e i w) = Returned ()) \<or>
           (fst (takeCensus e i w) = Suspended \<and>
            endOfCensus e i (store w) (script w) = None \<and>
            (\<forall>x \<in> set (script w). \<exists>v. result x = Inr v))"
    using censusTurns_end_iff [OF turns, of i] by blast
qed

text \<open>
  On concrete runs: a snapshot whose census is up to date; a census whose call resolves
  while nobody touches the state; and a census that is taken again because \<open>invert\<close>
  was clicked while the first call was pending.
\<close>

theorem takeCensus_idempotent_witness:
  "getSnapshot (store upToDateWorld) 1 = Some censusSnapshot \<and>
   state censusSnapshot \<in> {READ, SAVED_CENSUS} \<and>
   censusIsUpToDate sampleEnv (inverted (store upToDateWorld)) (filter' (store upToDateWorld))
     (breakdown (store upToDateWorld)) (census censusSnapshot) \<and>
   takeCensus sampleEnv 1 upToDateWorld = (Returned (), upToDateWorld) \<and>
   getSnapshot (store promptWorld) 1 = Some readSnapshot' \<and>
   state readSnapshot' \<in> {READ, SAVED_CENSUS} \<and>
   \<not> censusIsUpToDate sampleEnv (inverted (store promptWorld)) (filter' (store promptWorld))
       (breakdown (store promptWorld)) (census readSnapshot') \<and>
   script promptWorld = resolved ''report1'' # [] \<and>
   result (resolved ''report1'') = Inr ''report1'' \<and>
   stillCurrent sampleEnv (store promptWorld)
     (afterFirstTurn sampleEnv 1 (resolved ''report1'') (store promptWorld)) \<and>
   takeCensus sampleEnv 1 promptWorld =
     (Returned (),
      dispatch sampleEnv
        (TAKE_CENSUS_END 1 (breakdown (store promptWorld)) (inverted (store promptWorld))
           (filter' (store promptWorld)) ''report1'')
        (afterCensusCall sampleEnv 1 readSnapshot' (resolved ''report1'') [] promptWorld)) \<and>
   getSnapshot (store censusWorld) 1 = Some readSnapshot' \<and>
   \<not> censusIsUpToDate sampleEnv (inverted (store censusWorld)) (filter' (store censusWorld))
       (breakdown (store censusWorld)) (census readSnapshot') \<and>
   endOfCensus sampleEnv 1 (store censusWorld) (script censusWorld) =
     Some (''coarseType'', True, None, ''report2'') \<and>
   Dispatched (TAKE_CENSUS_END 1 ''coarseType'' True None ''report2'') \<in>
     set (emitted censusWorld (snd (takeCensus sampleEnv 1 censusWorld))) \<and>
   fst (takeCensus sampleEnv 1 censusWorld) = Returned () \<and>
   endsCensus sampleEnv 1 readSnapshot' (store censusWorld) ''coarseType'' True None ''report2''
     (emitted censusWorld (snd (takeCensus sampleEnv 1 censusWorld))) \<and>
   censusTurns sampleEnv 1 readSnapshot' (store censusWorld) (script censusWorld)
     (emitted censusWorld (snd (takeCensus sampleEnv 1 censusWorld)))
     (fst (takeCensus sampleEnv 1 censusWorld))"
proof -
  have a1: "getSnapshot (store upToDateWorld) 1 = Some censusSnapshot"
    "state censusSnapshot \<in> {READ, SAVED_CENSUS}"
    by code_simp+
  have u1: "censusIsUpToDate sampleEnv (inverted (store upToDateWorld))
     (filter' (store upToDateWorld)) (breakdown (store upToDateWorld)) (census censusSnapshot)"
    by code_simp
  have a2: "getSnapshot (store promptWorld) 1 = Some readSnapshot'"
    "state readSnapshot' \<in> {READ, SAVED_CENSUS}"
    by code_simp+
  have u2: "\<not> censusIsUpToDate sampleEnv (inverted (store promptWorld))
     (filter' (store promptWorld)) (breakdown (store promptWorld)) (census readSnapshot')"
    by code_simp
  have p: "script promptWorld = resolved ''report1'' # [] \<and>
    result (resolved ''report1'') = Inr ''report1'' \<and>
    stillCurrent sampleEnv (store promptWorld)
      (afterFirstTurn sampleEnv 1 (resolved ''report1'') (store promptWorld))"
    by code_simp
  have a3: "getSnapshot (store censusWorld) 1 = Some readSnapshot'"
    by code_simp
  have u3: "\<not> censusIsUpToDate sampleEnv (inverted (store censusWorld))
     (filter' (store censusWorld)) (breakdown (store censusWorld)) (census readSnapshot')"
    by code_simp
  have en: "endOfCensus sampleEnv 1 (store censusWorld) (script censusWorld) =
     Some (''coarseType'', True, None, ''report2'')"
    by code_simp
  note A = takeCensus_idempotent_or_repeats [OF a1, where e = sampleEnv,
    THEN conjunct1, THEN mp, OF u1]
  note B = takeCensus_idempotent_or_repeats [OF a2, where e = sampleEnv
      and r = "resolved ''report1''" and rs = "[]" and report' = "''report1''",
    THEN conjunct2, THEN mp, OF u2]
  note C = takeCensus_idempotent_or_repeats [OF a3 a2(2), where e = sampleEnv
      and j = 1 and b = "''coarseType''" and ivt = True and f = None
      and report' = "''report2''",
    THEN conjunct2, THEN mp, OF u3]
  note b3 = B [THEN conjunct2, THEN conjunct2, THEN conjunct1, THEN mp, OF p]
  note c1 = C [THEN conjunct1]
  have h: "Dispatched (TAKE_CENSUS_END 1 ''coarseType'' True None ''report2'') \<in>
     set (emitted censusWorld (snd (takeCensus sampleEnv 1 censusWorld)))"
    using C [THEN conjunct2, THEN conjunct2, THEN conjunct2, THEN conjunct2, THEN conjunct1] en
    by simp
  note c6 = C [THEN conjunct2, THEN conjunct2, THEN conjunct2, THEN conjunct2, THEN conjunct2,
    THEN conjunct1, THEN mp, OF h]
  from a1 u1 A a2 u2 p [THEN conjunct1] p [THEN conjunct2, THEN conjunct1]
    p [THEN conjunct2, THEN conjunct2] b3 a3 u3 en h c6 [THEN conjunct1] c6 [THEN conjunct2] c1
  show ?thesis by - (intro conjI; assumption)
qed

text \<open>
  C10. The \<open>documentCurrentTime\<close> getter returns \<open>false\<close> if and only if some player
  of the list has a falsy \<open>state.documentCurrentTime\<close>. Otherwise, the times being
  those of a document timeline and so not negative, it returns the greatest of the
  players' values; and for the empty list it returns the number zero, not \<open>false\<close>.
\<close>

theorem documentCurrentTime_false_or_max:
  "(documentCurrentTime stateOf ps = JSFalse \<longleftrightarrow> (\<exists>p \<in> set ps. falsy (stateOf p))) \<and>
   (ps \<noteq> [] \<and> (\<forall>p \<in> set ps. \<not> falsy (stateOf p) \<and> 0 \<le> numberOf (stateOf p)) \<longrightarrow>
      documentCurrentTime stateOf ps = JSNumber (Max (numberOf ` stateOf ` set ps))) \<and>
   documentCurrentTime stateOf [] = JSNumber 0"
proof (intro conjI impI)
  show "documentCurrentTime stateOf ps = JSFalse \<longleftrightarrow> (\<exists>p \<in> set ps. falsy (stateOf p))"
    by (simp add: documentCurrentTime_def documentCurrentTimeLoop_eq)
next
  assume a: "ps \<noteq> [] \<and> (\<forall>p \<in> set ps. \<not> falsy (stateOf p) \<and> 0 \<le> numberOf (stateOf p))"
  then have "Max (insert 0 (numberOf ` stateOf ` set ps)) = Max (numberOf ` stateOf ` set ps)"
    by (intro Max_with_zero) auto
  with a show "documentCurrentTime stateOf ps = JSNumber (Max (numberOf ` stateOf ` set ps))"
    by (simp add: documentCurrentTime_def documentCurrentTimeLoop_eq image_image)
next
  show "documentCurrentTime stateOf [] = JSNumber 0"
    by (simp add: documentCurrentTime_def)
qed

text \<open>
  Two players at 10 and 20: the getter returns 20. A player with no time: it returns
  \<open>false\<close>.
\<close>

theorem documentCurrentTime_witness:
  "[1, 2] \<noteq> ([] :: player list) \<and>
   \<not> falsy (tenTimes 1) \<and> 0 \<le> numberOf (tenTimes 1) \<and>
   \<not> falsy (tenTimes 2) \<and> 0 \<le> numberOf (tenTimes 2) \<and>
   documentCurrentTime tenTimes [1, 2] = JSNumber 20 \<and>
   (\<exists>p \<in> set [1, 3]. falsy (noTimeOnThree p)) \<and>
   documentCurrentTime noTimeOnThree [1, 3] = JSFalse \<and>
   documentCurrentTime tenTimes [] = JSNumber 0"
  using documentCurrentTime_false_or_max [of tenTimes "[1, 2]"]
    documentCurrentTime_false_or_max [of noTimeOnThree "[1, 3]"]
  by (simp add: tenTimes_def noTimeOnThree_def)

end
